theory Spec2Isabelle
  imports Main
begin

section \<open>Regular expressions as used by the safety check\<close>

text \<open>
  \<open>is_safe_to_submit\<close> builds its search pattern by formatting the topology name into
  \<open>{}\s+\|\s+(ACTIVE|KILLED)\s+\|\<close> and hands the text to \<open>re.compile\<close> and
  \<open>re.search\<close>. The name is therefore read by the pattern parser like the rest of the
  pattern. The parser below reads the fragment of the pattern syntax made of ordinary
  characters, \<open>.\<close>, \<open>\s\<close>, a backslash before a character that is no ASCII letter or
  digit, groups, \<open>|\<close> and the postfix operators \<open>*\<close>, \<open>+\<close> and \<open>?\<close>. A pattern
  that \<open>re.compile\<close> rejects is \<open>Invalid\<close>; a pattern that uses syntax beyond the
  fragment (character sets, counted repetition, anchors, \<open>(?...)\<close>, other escapes, a
  repetition operator directly after another one) is \<open>Outside\<close>, and nothing is stated
  about it by the parser: what the library does with it is a parameter of the check
  (see \<open>safe_verdict\<close>). A character is a code point below 256, and \<open>\s\<close> is the
  class of the white-space characters among them, the same that \<open>str.split\<close> and
  \<open>str.strip\<close> take: U+0009 to U+000D, U+001C to U+0020, U+0085 and U+00A0.
\<close>

datatype atom = Lit char | Dot | Ws

datatype rexp =
    Zero
  | One
  | Atom atom
  | Alt rexp rexp
  | Seq rexp rexp
  | Star rexp

datatype 'a parsed = Parsed 'a | Invalid | Outside

abbreviation BS :: char where
  "BS \<equiv> CHR 0x5C"

definition is_space :: "char \<Rightarrow> bool" where
  "is_space c \<longleftrightarrow>
     c \<in> {CHR 0x09, CHR 0x0A, CHR 0x0B, CHR 0x0C, CHR 0x0D,
          CHR 0x1C, CHR 0x1D, CHR 0x1E, CHR 0x1F, CHR '' '', CHR 0x85, CHR 0xA0}"

definition ascii_alnum :: "char \<Rightarrow> bool" where
  "ascii_alnum c \<longleftrightarrow>
     (let n = (of_char c :: nat)
      in (48 \<le> n \<and> n \<le> 57) \<or> (65 \<le> n \<and> n \<le> 90) \<or> (97 \<le> n \<and> n \<le> 122))"

fun atom_ok :: "atom \<Rightarrow> char \<Rightarrow> bool" where
  "atom_ok (Lit d) c = (c = d)"
| "atom_ok Dot c = (c \<noteq> CHR 0x0A)"
| "atom_ok Ws c = is_space c"

fun seq_list :: "rexp list \<Rightarrow> rexp" where
  "seq_list [] = One"
| "seq_list (r # rs) = Seq r (seq_list rs)"

fun alt_list :: "rexp list \<Rightarrow> rexp" where
  "alt_list [] = Zero"
| "alt_list [r] = r"
| "alt_list (r # rs) = Alt r (alt_list rs)"

text \<open>
  A frame holds the alternatives already closed by \<open>|\<close> and the items of the alternative
  being read, both most recent first. \<open>close_frame\<close> turns a frame into the expression
  of the group (or of the whole pattern).
\<close>

type_synonym frame = "rexp list \<times> rexp list"

definition close_frame :: "frame \<Rightarrow> rexp" where
  "close_frame f = alt_list (rev (seq_list (rev (snd f)) # fst f))"

definition repeat :: "char \<Rightarrow> rexp \<Rightarrow> rexp" where
  "repeat c r =
     (if c = CHR ''*'' then Star r
      else if c = CHR ''+'' then Seq r (Star r)
      else Alt r One)"

text \<open>
  \<open>parse f stk q cs\<close>: \<open>f\<close> is the open frame, \<open>stk\<close> the frames of the enclosing
  groups, \<open>q\<close> says that the previous token was a repetition operator.
\<close>

fun parse :: "frame \<Rightarrow> frame list \<Rightarrow> bool \<Rightarrow> string \<Rightarrow> rexp parsed" where
  "parse f stk q [] = (if stk = [] then Parsed (close_frame f) else Invalid)"
| "parse f stk q (c # cs) =
     (if c = CHR ''('' then parse ([], []) (f # stk) False cs
      else if c = CHR '')'' then
        (case stk of
           [] \<Rightarrow> Invalid
         | g # stk' \<Rightarrow> parse (fst g, close_frame f # snd g) stk' False cs)
      else if c = CHR ''|'' then parse (seq_list (rev (snd f)) # fst f, []) stk False cs
      else if c = CHR ''*'' \<or> c = CHR ''+'' \<or> c = CHR ''?'' then
        (case snd f of
           [] \<Rightarrow> (if c = CHR ''?'' \<and> fst f = [] \<and> stk \<noteq> [] then Outside else Invalid)
         | r # rs \<Rightarrow> (if q then Outside else parse (fst f, repeat c r # rs) stk True cs))
      else if c = BS then
        (case cs of
           [] \<Rightarrow> Invalid
         | e # cs' \<Rightarrow>
             (if e = CHR ''s'' then parse (fst f, Atom Ws # snd f) stk False cs'
              else if ascii_alnum e then Outside
              else parse (fst f, Atom (Lit e) # snd f) stk False cs'))
      else if c = CHR ''.'' then parse (fst f, Atom Dot # snd f) stk False cs
      else if c = CHR ''^'' \<or> c = CHR ''$'' \<or> c = CHR ''['' \<or> c = CHR ''{'' then Outside
      else parse (fst f, Atom (Lit c) # snd f) stk False cs)"

definition re_compile :: "string \<Rightarrow> rexp parsed" where
  "re_compile p = parse ([], []) [] False p"

text \<open>
  Matching by derivatives: \<open>deriv c r\<close> matches what \<open>r\<close> matches after a leading
  \<open>c\<close>. \<open>match_here\<close> looks for a match that starts at the head of the text,
  \<open>re_search\<close> for one that starts anywhere, as \<open>re.search\<close> does. Whether a match
  exists does not depend on the order in which a backtracking matcher tries the
  alternatives, and that is all the program asks.
\<close>

fun nullable :: "rexp \<Rightarrow> bool" where
  "nullable Zero = False"
| "nullable One = True"
| "nullable (Atom a) = False"
| "nullable (Alt r s) = (nullable r \<or> nullable s)"
| "nullable (Seq r s) = (nullable r \<and> nullable s)"
| "nullable (Star r) = True"

fun deriv :: "char \<Rightarrow> rexp \<Rightarrow> rexp" where
  "deriv c Zero = Zero"
| "deriv c One = Zero"
| "deriv c (Atom a) = (if atom_ok a c then One else Zero)"
| "deriv c (Alt r s) = Alt (deriv c r) (deriv c s)"
| "deriv c (Seq r s) =
     (if nullable r then Alt (Seq (deriv c r) s) (deriv c s) else Seq (deriv c r) s)"
| "deriv c (Star r) = Seq (deriv c r) (Star r)"

fun match_here :: "rexp \<Rightarrow> string \<Rightarrow> bool" where
  "match_here r [] = nullable r"
| "match_here r (c # cs) = (nullable r \<or> match_here (deriv c r) cs)"

fun re_search :: "rexp \<Rightarrow> string \<Rightarrow> bool" where
  "re_search r [] = nullable r"
| "re_search r (c # cs) = (match_here r (c # cs) \<or> re_search r cs)"

section \<open>The safety check on a listing\<close>

datatype error =
    RuntimeError string
  | ReError
  | ValueError
  | KeyError string
  | TypeError
  | AttributeError
  | IndexError
  | External string

definition state_suffix :: string where
  "state_suffix =
     BS # ''s+'' @ BS # ''|'' @ BS # ''s+(ACTIVE|KILLED)'' @ BS # ''s+'' @ BS # ''|''"

text \<open>
  What \<open>re.compile\<close> and \<open>re.search\<close> do with a pattern outside the fragment is a
  parameter: for the text of the pattern, \<open>None\<close> when \<open>re.compile\<close> raises, or the
  function that says for each text whether \<open>re.search\<close> finds a match.
\<close>

type_synonym re_rest = "string \<Rightarrow> (string \<Rightarrow> bool) option"

text \<open>
  Lines 76 to 81 of \<open>is_safe_to_submit\<close>: the verdict on the text of a listing that
  was obtained. \<open>re.compile\<close> raises on an invalid pattern.
\<close>

definition safe_verdict :: "re_rest \<Rightarrow> string \<Rightarrow> string \<Rightarrow> error + bool" where
  "safe_verdict lib topology_name out =
     (case re_compile (topology_name @ state_suffix) of
        Invalid \<Rightarrow> Inl ReError
      | Outside \<Rightarrow>
          (case lib (topology_name @ state_suffix) of
             None \<Rightarrow> Inl ReError
           | Some search \<Rightarrow> if search out then Inr False else Inr True)
      | Parsed pattern \<Rightarrow> if re_search pattern out then Inr False else Inr True)"

section \<open>Strings and configuration values of the host language\<close>

abbreviation SQ :: char where
  "SQ \<equiv> CHR 0x27"

abbreviation DQ :: char where
  "DQ \<equiv> CHR 0x22"

abbreviation NL :: char where
  "NL \<equiv> CHR 0x0A"

definition squote :: "string \<Rightarrow> string" where
  "squote s = SQ # s @ [SQ]"

definition dquote :: "string \<Rightarrow> string" where
  "dquote s = DQ # s @ [DQ]"

fun starts_with :: "string \<Rightarrow> string \<Rightarrow> bool" where
  "starts_with s [] = True"
| "starts_with [] (p # ps) = False"
| "starts_with (c # cs) (p # ps) = (c = p \<and> starts_with cs ps)"

definition ends_with :: "string \<Rightarrow> string \<Rightarrow> bool" where
  "ends_with s suffix = starts_with (rev s) (rev suffix)"

text \<open>\<open>contains sub s\<close> is the test \<open>sub in s\<close> on strings.\<close>

fun contains :: "string \<Rightarrow> string \<Rightarrow> bool" where
  "contains sub [] = (sub = [])"
| "contains sub (c # cs) = (starts_with (c # cs) sub \<or> contains sub cs)"

fun join :: "string \<Rightarrow> string list \<Rightarrow> string" where
  "join sep [] = []"
| "join sep [x] = x"
| "join sep (x # xs) = x @ sep @ join sep xs"

text \<open>\<open>s.split()\<close>: the words between runs of white space; \<open>cur\<close> is the word being read, reversed.\<close>

fun split_words :: "string \<Rightarrow> string \<Rightarrow> string list" where
  "split_words cur [] = (if cur = [] then [] else [rev cur])"
| "split_words cur (c # cs) =
     (if is_space c then (if cur = [] then split_words [] cs else rev cur # split_words [] cs)
      else split_words (c # cur) cs)"

definition split_ws :: "string \<Rightarrow> string list" where
  "split_ws s = split_words [] s"

text \<open>\<open>s.split(sep)\<close> for a separator of one character.\<close>

fun split_on :: "char \<Rightarrow> string \<Rightarrow> string list" where
  "split_on sep [] = [[]]"
| "split_on sep (c # cs) =
     (if c = sep then [] # split_on sep cs
      else (case split_on sep cs of [] \<Rightarrow> [[c]] | x # xs \<Rightarrow> (c # x) # xs))"

definition strip :: "string \<Rightarrow> string" where
  "strip s = rev (dropWhile is_space (rev (dropWhile is_space s)))"

text \<open>\<open>s.lstrip(chars)\<close> and \<open>s.rstrip(chars)\<close> remove characters of the set \<open>chars\<close>.\<close>

definition lstrip :: "string \<Rightarrow> string \<Rightarrow> string" where
  "lstrip chars s = dropWhile (\<lambda>c. c \<in> set chars) s"

definition rstrip :: "string \<Rightarrow> string \<Rightarrow> string" where
  "rstrip chars s = rev (dropWhile (\<lambda>c. c \<in> set chars) (rev s))"

text \<open>
  \<open>str.lower\<close> on code points below 256: the letters A to Z, and U+00C0 to U+00DE
  without the multiplication sign U+00D7, have their lower-case letter 32 places on.
\<close>

definition lower_char :: "char \<Rightarrow> char" where
  "lower_char c =
     (let n = (of_char c :: nat)
      in if (65 \<le> n \<and> n \<le> 90) \<or> (192 \<le> n \<and> n \<le> 222 \<and> n \<noteq> 215) then char_of (n + 32)
         else c)"

definition lower :: "string \<Rightarrow> string" where
  "lower s = map lower_char s"

definition digit :: "nat \<Rightarrow> char" where
  "digit n = ''0123456789'' ! n"

fun digits :: "nat \<Rightarrow> string" where
  "digits n = (if n < 10 then [digit n] else digits (n div 10) @ [digit (n mod 10)])"

declare digits.simps [simp del]

text \<open>\<open>"{}".format(i)\<close> for an integer \<open>i\<close>.\<close>

definition str_int :: "int \<Rightarrow> string" where
  "str_int i = (if i < 0 then CHR ''-'' # digits (nat (- i)) else digits (nat i))"

text \<open>
  The values found in the configuration: scalars. The setting \<open>log\<close> is a dictionary of
  scalars when it is present.
\<close>

datatype pyval = PNone | PBool bool | PInt int | PStr string

fun truthy :: "pyval \<Rightarrow> bool" where
  "truthy PNone = False"
| "truthy (PBool b) = b"
| "truthy (PInt i) = (i \<noteq> 0)"
| "truthy (PStr s) = (s \<noteq> [])"

fun py_str :: "pyval \<Rightarrow> string" where
  "py_str PNone = ''None''"
| "py_str (PBool b) = (if b then ''True'' else ''False'')"
| "py_str (PInt i) = str_int i"
| "py_str (PStr s) = s"

text \<open>\<open>isinstance(v, int)\<close>: a boolean is an \<open>int\<close> in the host language.\<close>

fun is_int :: "pyval \<Rightarrow> bool" where
  "is_int (PBool b) = True"
| "is_int (PInt i) = True"
| "is_int v = False"

type_synonym dict = "string \<rightharpoonup> pyval"

text \<open>\<open>d.get(k)\<close> and \<open>d.get(k, default)\<close>.\<close>

definition dict_get :: "dict \<Rightarrow> string \<Rightarrow> pyval" where
  "dict_get d k = (case d k of None \<Rightarrow> PNone | Some v \<Rightarrow> v)"

definition dict_get_default :: "dict \<Rightarrow> string \<Rightarrow> pyval \<Rightarrow> pyval" where
  "dict_get_default d k v0 = (case d k of None \<Rightarrow> v0 | Some v \<Rightarrow> v)"

definition py_or :: "pyval \<Rightarrow> pyval \<Rightarrow> pyval" where
  "py_or a b = (if truthy a then a else b)"

record env_config =
  settings :: dict
  log :: "dict option"

section \<open>The process, its collaborators and their answers\<close>

text \<open>
  Every call that leaves the module is recorded in the trace of the world, in the order
  of the calls. What a collaborator answers is given by a function of the trace up to
  and including the call (written \<open>env\<close> below): the collaborator returns a result
  (exit status and output) or raises.
  Progress messages printed to the terminal and the change of \<open>sys.path\<close> are not modelled.
\<close>

datatype hook_module = Invoke | Fabric

datatype hook_name = PreSubmit | PostSubmit

datatype call =
    PrepareTopology
  | ActivateEnv string
  | CallHook hook_module hook_name string string
  | CreateOrUpdateVirtualenvs string string string
  | Run string
  | OpenTunnel pyval string int int
  | CloseTunnel
  | ListTopologies "string option" "int option"
  | KillTopology string "int option" "string option" "int option"
  | Sleep nat

record result =
  ok :: bool
  stdout :: string
  stderr :: string

datatype reply = Returns result | Raises string

type_synonym replies = "call list \<Rightarrow> reply"

record world =
  trace :: "call list"
  environ :: "string \<rightharpoonup> string"

type_synonym 'a outcome = "(error + 'a) \<times> world"

definition external :: "replies \<Rightarrow> call \<Rightarrow> world \<Rightarrow> result outcome" where
  "external env c w =
     (let w' = w\<lparr>trace := trace w @ [c]\<rparr>
      in (case env (trace w') of Raises m \<Rightarrow> Inl (External m) | Returns r \<Rightarrow> Inr r, w'))"

text \<open>\<open>time.sleep(0.5)\<close>, recorded in milliseconds.\<close>

definition sleep :: "nat \<Rightarrow> world \<Rightarrow> world" where
  "sleep ms w = w\<lparr>trace := trace w @ [Sleep ms]\<rparr>"

text \<open>Sequencing: an error ends the run of the steps that follow.\<close>

definition and_then :: "'a outcome \<Rightarrow> ('a \<Rightarrow> world \<Rightarrow> 'b outcome) \<Rightarrow> 'b outcome" where
  "and_then m f = (case m of (Inl e, w) \<Rightarrow> (Inl e, w) | (Inr a, w) \<Rightarrow> f a w)"

definition succeed :: "'a \<Rightarrow> world \<Rightarrow> 'a outcome" where
  "succeed a w = (Inr a, w)"

definition raise :: "error \<Rightarrow> world \<Rightarrow> 'a outcome" where
  "raise e w = (Inl e, w)"

definition perform :: "replies \<Rightarrow> call \<Rightarrow> world \<Rightarrow> unit outcome" where
  "perform env c w = and_then (external env c w) (\<lambda>r. succeed ())"

section \<open>The module \<open>streamparse/cli/submit.py\<close>\<close>

text \<open>
  A leading underscore of a source name is written \<open>u_\<close>. Functions that reach a
  collaborator take the reply function \<open>env\<close> first and the world last.
\<close>

subsection \<open>\<open>get_user_tasks\<close> and the hooks\<close>

text \<open>
  What \<open>import tasks\<close> and \<open>import fabfile\<close> find in the working directory is a
  parameter: for each module, whether it exists and which of the two hook names it
  defines as a callable.
\<close>

record hooks =
  pre_submit :: bool
  post_submit :: bool

record user_modules =
  tasks :: "hooks option"
  fabfile :: "hooks option"

definition get_user_tasks :: "user_modules \<Rightarrow> hooks option \<times> hooks option" where
  "get_user_tasks um =
     (case tasks um of
        None \<Rightarrow> (None, None)
      | Some user_invoke \<Rightarrow>
          (case fabfile um of
             None \<Rightarrow> (None, None)
           | Some user_fabric \<Rightarrow> (Some user_invoke, Some user_fabric)))"

text \<open>\<open>callable(getattr(module, name, None))\<close>.\<close>

definition callable_attr :: "hooks option \<Rightarrow> hook_name \<Rightarrow> bool" where
  "callable_attr m n =
     (case m of
        None \<Rightarrow> False
      | Some h \<Rightarrow> (case n of PreSubmit \<Rightarrow> pre_submit h | PostSubmit \<Rightarrow> post_submit h))"

definition u_pre_submit_hooks ::
  "replies \<Rightarrow> user_modules \<Rightarrow> string \<Rightarrow> string \<Rightarrow> world \<Rightarrow> unit outcome" where
  "u_pre_submit_hooks env um topology_name env_name w =
     (case get_user_tasks um of
        (user_invoke, user_fabric) \<Rightarrow>
          and_then
            (if callable_attr user_invoke PreSubmit
             then perform env (CallHook Invoke PreSubmit topology_name env_name) w
             else succeed () w)
            (\<lambda>_ w. if callable_attr user_fabric PreSubmit
                    then perform env (CallHook Fabric PreSubmit topology_name env_name) w
                    else succeed () w))"

definition u_post_submit_hooks ::
  "replies \<Rightarrow> user_modules \<Rightarrow> string \<Rightarrow> string \<Rightarrow> world \<Rightarrow> unit outcome" where
  "u_post_submit_hooks env um topology_name env_name w =
     (case get_user_tasks um of
        (user_invoke, user_fabric) \<Rightarrow>
          and_then
            (if callable_attr user_invoke PostSubmit
             then perform env (CallHook Invoke PostSubmit topology_name env_name) w
             else succeed () w)
            (\<lambda>_ w. if callable_attr user_fabric PostSubmit
                    then perform env (CallHook Fabric PostSubmit topology_name env_name) w
                    else succeed () w))"

subsection \<open>\<open>jar_for_deploy\<close>\<close>

definition unable_to_run :: "string \<Rightarrow> result \<Rightarrow> error" where
  "unable_to_run c res =
     RuntimeError (''Unable to run '' @ squote c @ ''!'' @ [NL] @ ''STDOUT:'' @ [NL] @ stdout res
                   @ [NL] @ ''STDERR:'' @ [NL] @ stderr res)"

definition jar_for_deploy :: "replies \<Rightarrow> world \<Rightarrow> string outcome" where
  "jar_for_deploy env w =
     and_then (external env (Run ''lein clean'') w)
       (\<lambda>res w.
          if \<not> ok res then raise (unable_to_run ''lein clean'' res) w
          else
            and_then (external env (Run ''lein uberjar'') w)
              (\<lambda>res w.
                 if \<not> ok res then raise (unable_to_run ''lein uberjar'' res) w
                 else
                   (case [lstrip ''Created '' (strip l).
                            l \<leftarrow> split_ws (stdout res), ends_with l ''standalone.jar''] of
                      [] \<Rightarrow> raise IndexError w
                    | uberjar # _ \<Rightarrow> succeed uberjar w)))"

subsection \<open>\<open>is_safe_to_submit\<close>\<close>

definition is_safe_to_submit ::
  "re_rest \<Rightarrow> replies \<Rightarrow> string \<Rightarrow> string option \<Rightarrow> int option \<Rightarrow> world \<Rightarrow> bool outcome" where
  "is_safe_to_submit lib env topology_name host port w =
     and_then (external env (ListTopologies host port) w)
       (\<lambda>result w.
          if \<not> ok result
          then raise (RuntimeError ''Error running streamparse.commands.list/-main'') w
          else (safe_verdict lib topology_name (stdout result), w))"

subsection \<open>\<open>_kill_existing_topology\<close>\<close>

text \<open>
  The \<open>while\<close> loop of lines 90 to 93. It may run forever; \<open>None\<close> is the run that
  does not return.
\<close>

partial_function (option) wait_until_safe ::
  "re_rest \<Rightarrow> replies \<Rightarrow> string \<Rightarrow> string option \<Rightarrow> int option \<Rightarrow> world \<Rightarrow> unit outcome option" where
  "wait_until_safe lib env topology_name host port w =
     (case is_safe_to_submit lib env topology_name host port w of
        (Inl e, w') \<Rightarrow> Some (Inl e, w')
      | (Inr safe, w') \<Rightarrow>
          if \<not> safe then wait_until_safe lib env topology_name host port (sleep 500 w')
          else Some (Inr (), w'))"

definition u_kill_existing_topology ::
  "re_rest \<Rightarrow> replies \<Rightarrow> string \<Rightarrow> bool \<Rightarrow> int option \<Rightarrow> string option \<Rightarrow> int option \<Rightarrow> world
     \<Rightarrow> unit outcome option" where
  "u_kill_existing_topology lib env topology_name force wait host port w =
     (if force then
        (case is_safe_to_submit lib env topology_name host port w of
           (Inl e, w') \<Rightarrow> Some (Inl e, w')
         | (Inr safe, w') \<Rightarrow>
             if \<not> safe then
               (case perform env (KillTopology topology_name wait host port) w' of
                  (Inl e, w'') \<Rightarrow> Some (Inl e, w'')
                | (Inr _, w'') \<Rightarrow> wait_until_safe lib env topology_name host port w'')
             else Some (Inr (), w'))
      else Some (Inr (), w))"

subsection \<open>\<open>_submit_topology\<close>\<close>

definition jvm_opts :: "string \<Rightarrow> string" where
  "jvm_opts topology_jar =
     join '' '' [''-Dstorm.jar='' @ topology_jar, ''-Dstorm.options='', ''-Dstorm.conf.file='']"

text \<open>The loop over the user's options, lines 148 to 155.\<close>

fun add_user_options :: "string list \<Rightarrow> string list \<Rightarrow> error + string list" where
  "add_user_options cmd [] = Inr cmd"
| "add_user_options cmd (option # options) =
     (if contains ''deployment_stage'' option then
        (case split_on CHR ''='' option of
           [key, val] \<Rightarrow>
             add_user_options (cmd @ [''--option '' @ squote (key @ ''='' @ dquote val)]) options
         | _ \<Rightarrow> Inl ValueError)
      else add_user_options (cmd @ [''--option '' @ option]) options)"

text \<open>Lines 107 to 117: the command, the topology file and the flags.\<close>

definition base_cmd :: "string \<Rightarrow> string option \<Rightarrow> int option \<Rightarrow> bool \<Rightarrow> string list" where
  "base_cmd topology_file host port debug =
     (let cmd = [''lein'', ''run -m streamparse.commands.submit_topology/-main'', topology_file];
          cmd = (case host of
                   None \<Rightarrow> cmd
                 | Some h \<Rightarrow> if h \<noteq> [] then cmd @ [''--host '' @ h] else cmd);
          cmd = (case port of
                   None \<Rightarrow> cmd
                 | Some p \<Rightarrow> if p \<noteq> 0 then cmd @ [''--port '' @ str_int p] else cmd)
      in if debug then cmd @ [''--debug''] else cmd)"

text \<open>Lines 119 and 120.\<close>

definition parallelism_options :: "int \<Rightarrow> int \<Rightarrow> string list" where
  "parallelism_options workers ackers =
     [''--option '' @ squote (''topology.workers='' @ str_int workers),
      ''--option '' @ squote (''topology.acker.executors='' @ str_int ackers)]"

text \<open>
  Lines 122 to 126: what is appended for the interpreter of the virtualenv. A missing
  \<open>virtualenv_root\<close> raises, and so does joining a root that is no string.
\<close>

definition python_path_option :: "env_config \<Rightarrow> string \<Rightarrow> error + string list" where
  "python_path_option env_config topology_name =
     (if truthy (dict_get_default (settings env_config) ''use_virtualenv'' (PBool True)) then
        (case settings env_config ''virtualenv_root'' of
           None \<Rightarrow> Inl (KeyError ''virtualenv_root'')
         | Some (PStr root) \<Rightarrow>
             Inr [''--option '' @ squote (''topology.python.path='' @
                    dquote (join ''/'' [root, topology_name, ''bin'', ''python'']))]
         | Some _ \<Rightarrow> Inl TypeError)
      else Inr [])"

text \<open>Lines 129 to 144: what is appended for the logging settings.\<close>

definition log_options :: "env_config \<Rightarrow> string list" where
  "log_options env_config =
     (let log_config = (case log env_config of None \<Rightarrow> Map.empty | Some d \<Rightarrow> d);
          log_path = py_or (dict_get log_config ''path'')
                           (dict_get (settings env_config) ''log_path'')
      in
        (if truthy log_path
         then [''--option '' @ squote (''streamparse.log.path='' @ dquote (py_str log_path))]
         else [])
        @ (if is_int (dict_get log_config ''max_bytes'')
           then [''--option '' @ squote (''streamparse.log.max_bytes='' @
                   py_str (dict_get log_config ''max_bytes''))]
           else [])
        @ (if is_int (dict_get log_config ''backup_count'')
           then [''--option '' @ squote (''streamparse.log.backup_count='' @
                   py_str (dict_get log_config ''backup_count''))]
           else [])
        @ (case dict_get log_config ''level'' of
             PStr level \<Rightarrow>
               [''--option '' @ squote (''streamparse.log.level='' @ dquote (lower level))]
           | _ \<Rightarrow> []))"

text \<open>The list \<open>cmd\<close> as it stands at line 156, or the error raised on the way.\<close>

definition submit_cmd ::
  "string \<Rightarrow> string \<Rightarrow> env_config \<Rightarrow> int \<Rightarrow> int \<Rightarrow> string list option \<Rightarrow> bool
     \<Rightarrow> string option \<Rightarrow> int option \<Rightarrow> error + string list" where
  "submit_cmd topology_name topology_file env_config workers ackers options debug host port =
     (let cmd = base_cmd topology_file host port debug @ parallelism_options workers ackers
      in case python_path_option env_config topology_name of
           Inl e \<Rightarrow> Inl e
         | Inr python_path \<Rightarrow>
             add_user_options (cmd @ python_path @ log_options env_config)
               (case options of None \<Rightarrow> [] | Some os \<Rightarrow> os))"

definition u_submit_topology ::
  "replies \<Rightarrow> string \<Rightarrow> string \<Rightarrow> string \<Rightarrow> env_config \<Rightarrow> int \<Rightarrow> int \<Rightarrow> string list option
     \<Rightarrow> bool \<Rightarrow> string option \<Rightarrow> int option \<Rightarrow> world \<Rightarrow> unit outcome" where
  "u_submit_topology env topology_name topology_file topology_jar env_config workers ackers
       options debug host port w =
     (let w = w\<lparr>environ := (environ w)(''JVM_OPTS'' \<mapsto> jvm_opts topology_jar)\<rparr>
      in case submit_cmd topology_name topology_file env_config workers ackers options debug
                host port of
           Inl e \<Rightarrow> raise e w
         | Inr cmd \<Rightarrow> perform env (Run (join '' '' cmd)) w)"

subsection \<open>\<open>submit_topology\<close>\<close>

text \<open>
  The helpers of \<open>streamparse.util\<close> that only read the project are parameters: a
  \<open>project\<close> holds what \<open>get_config\<close>, \<open>get_topology_definition\<close>, \<open>get_env_config\<close>,
  \<open>get_nimbus_for_env_config\<close> and \<open>is_ssh_for_nimbus\<close> returned, and what the
  imports of \<open>get_user_tasks\<close> find.
\<close>

record project =
  cfg :: dict
  resolved_name :: string
  resolved_file :: string
  resolved_env_name :: string
  resolved_env_config :: env_config
  nimbus_host :: string
  nimbus_port :: int
  ssh_for_nimbus :: bool
  user_mods :: user_modules

text \<open>
  Modelled from the spec: \<open>ssh_tunnel\<close> of \<open>streamparse.contextmanagers\<close>, a scoped
  resource: it is opened before the body runs and torn down on every exit path of the
  body, also when the body raises.
\<close>

definition close_tunnel :: "'a outcome \<Rightarrow> 'a outcome" where
  "close_tunnel m = (fst m, (snd m)\<lparr>trace := trace (snd m) @ [CloseTunnel]\<rparr>)"

text \<open>The three calls that both branches of lines 216 to 230 make.\<close>

definition kill_submit_post ::
  "re_rest \<Rightarrow> replies \<Rightarrow> project \<Rightarrow> string \<Rightarrow> int \<Rightarrow> int \<Rightarrow> string list option \<Rightarrow> bool \<Rightarrow> bool
     \<Rightarrow> int option \<Rightarrow> string option \<Rightarrow> int option \<Rightarrow> world \<Rightarrow> unit outcome option" where
  "kill_submit_post lib env p topology_jar workers ackers options force debug wait host port w =
     (case u_kill_existing_topology lib env (resolved_name p) force wait host port w of
        None \<Rightarrow> None
      | Some (Inl e, w) \<Rightarrow> Some (Inl e, w)
      | Some (Inr _, w) \<Rightarrow>
          Some (and_then
                  (u_submit_topology env (resolved_name p) (resolved_file p) topology_jar
                     (resolved_env_config p) workers ackers options debug host port w)
                  (\<lambda>_ w. u_post_submit_hooks env (user_mods p) (resolved_name p)
                            (resolved_env_name p) w)))"

text \<open>Lines 190 to 211: everything up to and including the build of the jar.\<close>

definition build_phase :: "replies \<Rightarrow> project \<Rightarrow> world \<Rightarrow> string outcome" where
  "build_phase env p w =
     (let name = resolved_name p;
          env_name = resolved_env_name p;
          env_config = resolved_env_config p;
          use_venv = truthy (dict_get_default (settings env_config) ''use_virtualenv'' (PBool True))
      in
        and_then (perform env PrepareTopology w) (\<lambda>_ w.
        and_then (if use_venv then perform env (ActivateEnv env_name) w else succeed () w) (\<lambda>_ w.
        and_then (u_pre_submit_hooks env (user_mods p) name env_name w) (\<lambda>_ w.
        and_then
          (if use_venv then
             (case cfg p ''virtualenv_specs'' of
                None \<Rightarrow> raise (KeyError ''virtualenv_specs'') w
              | Some (PStr specs) \<Rightarrow>
                  perform env (CreateOrUpdateVirtualenvs env_name name
                                 (rstrip ''/'' specs @ ''/'' @ name @ ''.txt'')) w
              | Some _ \<Rightarrow> raise AttributeError w)
           else succeed () w) (\<lambda>_ w.
        jar_for_deploy env w)))))"

definition submit_topology ::
  "re_rest \<Rightarrow> replies \<Rightarrow> project \<Rightarrow> int \<Rightarrow> int \<Rightarrow> string list option \<Rightarrow> bool \<Rightarrow> bool \<Rightarrow> int option
     \<Rightarrow> world \<Rightarrow> unit outcome option" where
  "submit_topology lib env p workers ackers options force debug wait w =
     (case build_phase env p w of
        (Inl e, w) \<Rightarrow> Some (Inl e, w)
      | (Inr topology_jar, w) \<Rightarrow>
          if ssh_for_nimbus p then
            (case settings (resolved_env_config p) ''user'' of
               None \<Rightarrow> Some (Inl (KeyError ''user''), w)
             | Some user \<Rightarrow>
                 (case perform env (OpenTunnel user (nimbus_host p) 6627 (nimbus_port p)) w of
                    (Inl e, w) \<Rightarrow> Some (Inl e, w)
                  | (Inr _, w) \<Rightarrow>
                      map_option close_tunnel
                        (kill_submit_post lib env p topology_jar workers ackers options force debug
                           wait None None w)))
          else
            kill_submit_post lib env p topology_jar workers ackers options force debug wait
              (Some (nimbus_host p)) (Some (nimbus_port p)) w)"

subsection \<open>Kinds of calls\<close>

fun is_list_call :: "call \<Rightarrow> bool" where
  "is_list_call (ListTopologies h p) = True"
| "is_list_call c = False"

fun is_kill_call :: "call \<Rightarrow> bool" where
  "is_kill_call (KillTopology n wt h p) = True"
| "is_kill_call c = False"

fun is_submit_call :: "call \<Rightarrow> bool" where
  "is_submit_call (Run c) = starts_with c ''lein run -m streamparse.commands.submit_topology/-main''"
| "is_submit_call c = False"

fun is_hook_call :: "hook_name \<Rightarrow> call \<Rightarrow> bool" where
  "is_hook_call n (CallHook m n' t e) = (n' = n)"
| "is_hook_call n c = False"

section \<open>Notions used to state the properties\<close>

subsection \<open>The language of an expression\<close>

definition conc :: "string set \<Rightarrow> string set \<Rightarrow> string set" where
  "conc A B = {xs @ ys | xs ys. xs \<in> A \<and> ys \<in> B}"

inductive_set star :: "string set \<Rightarrow> string set" for A :: "string set" where
  star_nil: "[] \<in> star A"
| star_app: "a \<in> A \<Longrightarrow> w \<in> star A \<Longrightarrow> a @ w \<in> star A"

fun lang :: "rexp \<Rightarrow> string set" where
  "lang Zero = {}"
| "lang One = {[]}"
| "lang (Atom a) = {[c] | c. atom_ok a c}"
| "lang (Alt r s) = lang r \<union> lang s"
| "lang (Seq r s) = conc (lang r) (lang s)"
| "lang (Star r) = star (lang r)"

text \<open>
  A plain name has no character that the pattern syntax reads as an operator. \<open>blank\<close>
  is a non-empty run of white space. \<open>listed n out\<close>: the text \<open>out\<close> contains the name,
  white space, a bar, white space, one of the two states, white space and a bar.
\<close>

definition plain_char :: "char \<Rightarrow> bool" where
  "plain_char c \<longleftrightarrow> c \<notin> set ''.^$*+?{[|()'' \<and> c \<noteq> BS"

definition plain_name :: "string \<Rightarrow> bool" where
  "plain_name n = list_all plain_char n"

definition blank :: "string \<Rightarrow> bool" where
  "blank s \<longleftrightarrow> s \<noteq> [] \<and> list_all is_space s"

definition listed :: "string \<Rightarrow> string \<Rightarrow> bool" where
  "listed n out \<longleftrightarrow>
     (\<exists>pre w1 w2 st w3 post.
        out = pre @ n @ w1 @ ''|'' @ w2 @ st @ w3 @ ''|'' @ post
        \<and> blank w1 \<and> blank w2 \<and> blank w3 \<and> (st = ''ACTIVE'' \<or> st = ''KILLED''))"


text \<open>The items that \<open>state_suffix\<close> adds to the pattern.\<close>

definition tail_items :: "rexp list" where
  "tail_items =
     [Seq (Atom Ws) (Star (Atom Ws)), Atom (Lit CHR ''|''), Seq (Atom Ws) (Star (Atom Ws)),
      Alt (seq_list (map (\<lambda>c. Atom (Lit c)) ''ACTIVE'')) (seq_list (map (\<lambda>c. Atom (Lit c)) ''KILLED'')),
      Seq (Atom Ws) (Star (Atom Ws)), Atom (Lit CHR ''|'')]"


text \<open>The pattern made from the name \<open>a.c\<close>: the dot stands for any character but a newline.\<close>

definition dot_pattern :: rexp where
  "dot_pattern = seq_list ([Atom (Lit CHR ''a''), Atom Dot, Atom (Lit CHR ''c'')] @ tail_items)"

text \<open>
  The reading of the specification: some line of the listing contains the name itself
  followed by \<open>| ACTIVE |\<close> or \<open>| KILLED |\<close>.
\<close>

definition spec_line_matches :: "string \<Rightarrow> string \<Rightarrow> bool" where
  "spec_line_matches n line \<longleftrightarrow>
     contains (n @ '' | ACTIVE |'') line \<or> contains (n @ '' | KILLED |'') line"

definition spec_listed :: "string \<Rightarrow> string \<Rightarrow> bool" where
  "spec_listed n out = list_ex (spec_line_matches n) (split_on NL out)"

subsection \<open>The argument made from a user option\<close>

text \<open>
  \<open>rendered option arg\<close>: an option that contains the text \<open>deployment_stage\<close> anywhere
  has the form \<open>key=val\<close> with a single \<open>=\<close> and becomes \<open>--option 'key="val"'\<close>; any
  other option becomes \<open>--option\<close> followed by the option as it is.
\<close>

definition rendered :: "string \<Rightarrow> string \<Rightarrow> bool" where
  "rendered option arg \<longleftrightarrow>
     (if contains ''deployment_stage'' option
      then (\<exists>key val. option = key @ ''='' @ val \<and> CHR ''='' \<notin> set key \<and> CHR ''='' \<notin> set val
              \<and> arg = ''--option '' @ squote (key @ ''='' @ dquote val))
      else arg = ''--option '' @ option)"

text \<open>
  \<open>quotable\<close>: the option has exactly one \<open>=\<close>. \<open>acceptable\<close>: an option in which the
  text \<open>deployment_stage\<close> occurs is quotable.
\<close>

definition quotable :: "string \<Rightarrow> bool" where
  "quotable option \<longleftrightarrow> length (filter (\<lambda>c. c = CHR ''='') option) = 1"

definition acceptable :: "string \<Rightarrow> bool" where
  "acceptable option \<longleftrightarrow> (contains ''deployment_stage'' option \<longrightarrow> quotable option)"

subsection \<open>Runs of the kill phase and of the orchestrator\<close>

text \<open>
  \<open>polls host port k\<close> are the calls of \<open>k\<close> rounds of the waiting loop that found the
  topology still present: a listing and a sleep of 500 milliseconds each.
  \<open>verdict_at lib env n h\<close> is what the safety check for the name \<open>n\<close> answers when the
  trace up to and including its listing call is \<open>h\<close>.
\<close>

fun polls :: "string option \<Rightarrow> int option \<Rightarrow> nat \<Rightarrow> call list" where
  "polls host port 0 = []"
| "polls host port (Suc k) = ListTopologies host port # Sleep 500 # polls host port k"

definition verdict_at :: "re_rest \<Rightarrow> replies \<Rightarrow> string \<Rightarrow> call list \<Rightarrow> error + bool" where
  "verdict_at lib env n h =
     (case env h of
        Raises m \<Rightarrow> Inl (External m)
      | Returns r \<Rightarrow>
          if \<not> ok r then Inl (RuntimeError ''Error running streamparse.commands.list/-main'')
          else safe_verdict lib n (stdout r))"

text \<open>
  \<open>extended Q w w'\<close>: the world \<open>w'\<close> is \<open>w\<close> after further calls, all of kind \<open>Q\<close>,
  with the environment variables untouched.
\<close>

definition extended :: "(call \<Rightarrow> bool) \<Rightarrow> world \<Rightarrow> world \<Rightarrow> bool" where
  "extended Q w w' \<longleftrightarrow> (\<exists>evs. w' = w\<lparr>trace := trace w @ evs\<rparr> \<and> list_all Q evs)"



subsection \<open>The phases before the submitter\<close>

text \<open>
  \<open>deploy_host\<close> and \<open>deploy_port\<close>: the endpoint that the kill phase and the submitter
  are given, none inside the tunnel. \<open>open_tunnel\<close>: the opening of the tunnel, when one
  is used. \<open>leave_tunnel\<close>: its closing. \<open>reaches_submitter\<close>: the build returns a jar,
  the tunnel is opened and the kill phase returns normally, so that \<open>_submit_topology\<close>
  is called.
\<close>

definition deploy_host :: "project \<Rightarrow> string option" where
  "deploy_host p = (if ssh_for_nimbus p then None else Some (nimbus_host p))"

definition deploy_port :: "project \<Rightarrow> int option" where
  "deploy_port p = (if ssh_for_nimbus p then None else Some (nimbus_port p))"

definition open_tunnel :: "replies \<Rightarrow> project \<Rightarrow> world \<Rightarrow> unit outcome" where
  "open_tunnel env p w =
     (if ssh_for_nimbus p then
        (case settings (resolved_env_config p) ''user'' of
           None \<Rightarrow> raise (KeyError ''user'') w
         | Some user \<Rightarrow> perform env (OpenTunnel user (nimbus_host p) 6627 (nimbus_port p)) w)
      else succeed () w)"

definition reaches_submitter ::
  "re_rest \<Rightarrow> replies \<Rightarrow> project \<Rightarrow> bool \<Rightarrow> int option \<Rightarrow> world \<Rightarrow> bool" where
  "reaches_submitter lib env p force wait w =
     (case build_phase env p w of
        (Inl e, w1) \<Rightarrow> False
      | (Inr jar, w1) \<Rightarrow>
          (case open_tunnel env p w1 of
             (Inl e, w2) \<Rightarrow> False
           | (Inr u, w2) \<Rightarrow>
               (case u_kill_existing_topology lib env (resolved_name p) force wait
                       (deploy_host p) (deploy_port p) w2 of
                  Some (Inr v, w3) \<Rightarrow> True
                | _ \<Rightarrow> False)))"

definition leave_tunnel :: "project \<Rightarrow> unit outcome \<Rightarrow> unit outcome" where
  "leave_tunnel p m = (if ssh_for_nimbus p then close_tunnel m else m)"

subsection \<open>Kinds of calls in the phases of a run\<close>

text \<open>
  \<open>build_call\<close>: the two commands of the build. \<open>early_call\<close>: a call that is no
  listing, no kill, no submit command and no post-submission hook. \<open>kill_phase_call\<close>:
  a listing, a kill or a sleep of 500 milliseconds. \<open>late_call\<close>: a post-submission hook
  or the closing of the tunnel. \<open>quiet_call\<close>: neither a listing nor a kill.
\<close>

definition build_call :: "call \<Rightarrow> bool" where
  "build_call c \<longleftrightarrow> c = Run ''lein clean'' \<or> c = Run ''lein uberjar''"

definition early_call :: "call \<Rightarrow> bool" where
  "early_call c \<longleftrightarrow>
     \<not> is_list_call c \<and> \<not> is_kill_call c \<and> \<not> is_submit_call c \<and> \<not> is_hook_call PostSubmit c"

definition kill_phase_call :: "call \<Rightarrow> bool" where
  "kill_phase_call c \<longleftrightarrow> is_list_call c \<or> is_kill_call c \<or> c = Sleep 500"



subsection \<open>Scenarios\<close>

definition ok_result :: "string \<Rightarrow> result" where
  "ok_result out = \<lparr>ok = True, stdout = out, stderr = []\<rparr>"

text \<open>Every collaborator succeeds and prints \<open>out\<close>.\<close>

definition always :: "string \<Rightarrow> replies" where
  "always out h = Returns (ok_result out)"

text \<open>Every collaborator fails.\<close>

definition failing :: replies where
  "failing h = Returns \<lparr>ok = False, stdout = [], stderr = ''error''\<rparr>"

text \<open>A configuration without virtualenv and without logging settings.\<close>

definition bare_config :: env_config where
  "bare_config = \<lparr>settings = [''use_virtualenv'' \<mapsto> PBool False], log = None\<rparr>"

text \<open>
  A cluster on which every collaborator succeeds; the build prints the path of the jar, and
  the listing shows \<open>out\<close> in the first \<open>k\<close> listings and nothing after them.
\<close>

definition cluster :: "nat \<Rightarrow> string \<Rightarrow> replies" where
  "cluster k out h =
     (case rev h of
        [] \<Rightarrow> Returns (ok_result [])
      | Run c # _ \<Rightarrow>
          Returns (ok_result (if c = ''lein uberjar''
                              then ''Created /proj/target/wc-0.0.1-standalone.jar'' else []))
      | ListTopologies host port # _ \<Rightarrow>
          Returns (ok_result (if length (filter is_list_call h) \<le> k then out else []))
      | _ \<Rightarrow> Returns (ok_result []))"

definition demo_project :: project where
  "demo_project =
     \<lparr>cfg = Map.empty,
      resolved_name = ''wc'',
      resolved_file = ''topologies/wc.clj'',
      resolved_env_name = ''prod'',
      resolved_env_config = bare_config,
      nimbus_host = ''nimbus'',
      nimbus_port = 6627,
      ssh_for_nimbus = False,
      user_mods = \<lparr>tasks = Some \<lparr>pre_submit = True, post_submit = True\<rparr>,
                   fabfile = Some \<lparr>pre_submit = False, post_submit = False\<rparr>\<rparr>\<rparr>"

text \<open>The jar, the calls and the submit command of the runs of \<open>demo_project\<close>.\<close>

definition demo_jar :: string where
  "demo_jar = ''/proj/target/wc-0.0.1-standalone.jar''"

definition demo_start :: "call list" where
  "demo_start = [PrepareTopology, CallHook Invoke PreSubmit ''wc'' ''prod'',
                 Run ''lein clean'', Run ''lein uberjar'']"

definition demo_submit :: call where
  "demo_submit =
     Run (''lein run -m streamparse.commands.submit_topology/-main topologies/wc.clj''
          @ '' --host nimbus --port 6627 --option '' @ squote ''topology.workers=2''
          @ '' --option '' @ squote ''topology.acker.executors=1'')"


text \<open>A library that accepts no pattern outside the fragment.\<close>

definition no_other :: re_rest where
  "no_other pattern = None"


definition fresh :: world where
  "fresh = \<lparr>trace = [], environ = Map.empty\<rparr>"

section \<open>The matcher decides membership in the language\<close>

lemma nil_in_conc: "[] \<in> conc A B \<longleftrightarrow> [] \<in> A \<and> [] \<in> B"
  by (auto simp: conc_def)

lemma cons_in_conc:
  "c # w \<in> conc A B \<longleftrightarrow>
     ([] \<in> A \<and> c # w \<in> B) \<or> (\<exists>u v. w = u @ v \<and> c # u \<in> A \<and> v \<in> B)"
proof
  assume "c # w \<in> conc A B"
  then obtain xs ys where eq: "c # w = xs @ ys" and xs: "xs \<in> A" and ys: "ys \<in> B"
    by (auto simp: conc_def)
  show "([] \<in> A \<and> c # w \<in> B) \<or> (\<exists>u v. w = u @ v \<and> c # u \<in> A \<and> v \<in> B)"
  proof (cases xs)
    case Nil
    with eq xs ys show ?thesis by simp
  next
    case (Cons x u)
    with eq have "x = c" and "w = u @ ys" by simp_all
    with Cons xs ys show ?thesis by blast
  qed
next
  assume "([] \<in> A \<and> c # w \<in> B) \<or> (\<exists>u v. w = u @ v \<and> c # u \<in> A \<and> v \<in> B)"
  then show "c # w \<in> conc A B"
  proof
    assume "[] \<in> A \<and> c # w \<in> B"
    then have "[] @ (c # w) \<in> conc A B" unfolding conc_def by blast
    then show ?thesis by simp
  next
    assume "\<exists>u v. w = u @ v \<and> c # u \<in> A \<and> v \<in> B"
    then obtain u v where "w = u @ v" "c # u \<in> A" "v \<in> B" by blast
    then have "(c # u) @ v \<in> conc A B" unfolding conc_def by blast
    with \<open>w = u @ v\<close> show ?thesis by simp
  qed
qed

lemma star_cons_split:
  "x \<in> star A \<Longrightarrow> x = c # w \<Longrightarrow> \<exists>u v. w = u @ v \<and> c # u \<in> A \<and> v \<in> star A"
proof (induction arbitrary: w rule: star.induct)
  case star_nil
  then show ?case by simp
next
  case (star_app a y)
  show ?case
  proof (cases a)
    case Nil
    with star_app show ?thesis by simp
  next
    case (Cons d u)
    with star_app.prems have "d = c" and "w = u @ y" by simp_all
    with Cons star_app.hyps show ?thesis by blast
  qed
qed

lemma cons_in_star:
  "c # w \<in> star A \<longleftrightarrow> (\<exists>u v. w = u @ v \<and> c # u \<in> A \<and> v \<in> star A)"
proof
  assume "c # w \<in> star A"
  then show "\<exists>u v. w = u @ v \<and> c # u \<in> A \<and> v \<in> star A"
    by (rule star_cons_split) simp
next
  assume "\<exists>u v. w = u @ v \<and> c # u \<in> A \<and> v \<in> star A"
  then obtain u v where "w = u @ v" "c # u \<in> A" "v \<in> star A" by blast
  then have "(c # u) @ v \<in> star A" by (blast intro: star_app)
  with \<open>w = u @ v\<close> show "c # w \<in> star A" by simp
qed

lemma nullable_lang: "nullable r \<longleftrightarrow> [] \<in> lang r"
  by (induction r) (auto simp: nil_in_conc intro: star_nil)

lemma in_conc: "w \<in> conc A B \<longleftrightarrow> (\<exists>u v. w = u @ v \<and> u \<in> A \<and> v \<in> B)"
  by (auto simp: conc_def)

lemma deriv_lang: "w \<in> lang (deriv c r) \<longleftrightarrow> c # w \<in> lang r"
proof (induction r arbitrary: w)
  case (Seq r s)
  have "w \<in> conc (lang (deriv c r)) (lang s) \<longleftrightarrow>
          (\<exists>u v. w = u @ v \<and> c # u \<in> lang r \<and> v \<in> lang s)"
    by (simp add: in_conc Seq.IH)
  then show ?case
    by (simp add: cons_in_conc nullable_lang Seq.IH) blast
next
  case (Star r)
  have "w \<in> conc (lang (deriv c r)) (star (lang r)) \<longleftrightarrow>
          (\<exists>u v. w = u @ v \<and> c # u \<in> lang r \<and> v \<in> star (lang r))"
    by (simp add: in_conc Star.IH)
  then show ?case
    by (simp add: cons_in_star)
qed auto

lemma match_here_lang: "match_here r s \<longleftrightarrow> (\<exists>m t. s = m @ t \<and> m \<in> lang r)"
proof (induction s arbitrary: r)
  case Nil
  then show ?case by (simp add: nullable_lang)
next
  case (Cons c cs)
  show ?case
  proof
    assume "match_here r (c # cs)"
    then consider "nullable r" | "match_here (deriv c r) cs" by auto
    then show "\<exists>m t. c # cs = m @ t \<and> m \<in> lang r"
    proof cases
      case 1
      then have "c # cs = [] @ (c # cs) \<and> [] \<in> lang r" by (simp add: nullable_lang)
      then show ?thesis by blast
    next
      case 2
      then obtain m t where "cs = m @ t" "m \<in> lang (deriv c r)" using Cons.IH by blast
      then have "c # cs = (c # m) @ t \<and> c # m \<in> lang r" by (simp add: deriv_lang)
      then show ?thesis by blast
    qed
  next
    assume "\<exists>m t. c # cs = m @ t \<and> m \<in> lang r"
    then obtain m t where eq: "c # cs = m @ t" and m: "m \<in> lang r" by blast
    show "match_here r (c # cs)"
    proof (cases m)
      case Nil
      with m show ?thesis by (simp add: nullable_lang)
    next
      case (Cons d m')
      with eq have "d = c" "cs = m' @ t" by simp_all
      with Cons m have "m' \<in> lang (deriv c r)" by (simp add: deriv_lang)
      with \<open>cs = m' @ t\<close> have "match_here (deriv c r) cs" using Cons.IH by blast
      then show ?thesis by simp
    qed
  qed
qed

lemma re_search_lang: "re_search r s \<longleftrightarrow> (\<exists>p m t. s = p @ m @ t \<and> m \<in> lang r)"
proof (induction s)
  case Nil
  then show ?case by (simp add: nullable_lang)
next
  case (Cons c cs)
  show ?case
  proof
    assume "re_search r (c # cs)"
    then consider "match_here r (c # cs)" | "re_search r cs" by auto
    then show "\<exists>p m t. c # cs = p @ m @ t \<and> m \<in> lang r"
    proof cases
      case 1
      then obtain m t where "c # cs = m @ t" "m \<in> lang r" unfolding match_here_lang by blast
      then have "c # cs = [] @ m @ t \<and> m \<in> lang r" by simp
      then show ?thesis by blast
    next
      case 2
      then obtain p m t where "cs = p @ m @ t" "m \<in> lang r" using Cons.IH by blast
      then have "c # cs = (c # p) @ m @ t \<and> m \<in> lang r" by simp
      then show ?thesis by blast
    qed
  next
    assume "\<exists>p m t. c # cs = p @ m @ t \<and> m \<in> lang r"
    then obtain p m t where eq: "c # cs = p @ m @ t" and m: "m \<in> lang r" by blast
    show "re_search r (c # cs)"
    proof (cases p)
      case Nil
      with eq m have "match_here r (c # cs)" unfolding match_here_lang by auto
      then show ?thesis by simp
    next
      case (Cons d p')
      with eq have "cs = p' @ m @ t" by simp
      with m have "re_search r cs" using Cons.IH by blast
      then show ?thesis by simp
    qed
  qed
qed


section \<open>The pattern of a plain name\<close>

lemma parse_plain_char:
  "plain_char c \<Longrightarrow> parse f stk q (c # cs) = parse (fst f, Atom (Lit c) # snd f) stk False cs"
  by (simp add: plain_char_def)

lemma parse_plain_prefix:
  "list_all plain_char n \<Longrightarrow> n \<noteq> [] \<Longrightarrow>
     parse f stk q (n @ rest) = parse (fst f, rev (map (\<lambda>c. Atom (Lit c)) n) @ snd f) stk False rest"
proof (induction n arbitrary: f q)
  case Nil
  then show ?case by simp
next
  case (Cons c n)
  show ?case
  proof (cases "n = []")
    case True
    with Cons.prems show ?thesis by (simp add: parse_plain_char del: parse.simps)
  next
    case False
    with Cons show ?thesis by (simp add: parse_plain_char del: parse.simps)
  qed
qed

lemma parse_suffix:
  "parse ([], items) [] q state_suffix = Parsed (seq_list (rev items @ tail_items))"
  by (simp add: state_suffix_def tail_items_def close_frame_def repeat_def ascii_alnum_def)

lemma compile_plain:
  assumes "plain_name n"
  shows "re_compile (n @ state_suffix) = Parsed (seq_list (map (\<lambda>c. Atom (Lit c)) n @ tail_items))"
proof (cases "n = []")
  case True
  then show ?thesis by (simp add: re_compile_def parse_suffix)
next
  case False
  with assms show ?thesis
    by (simp add: re_compile_def plain_name_def parse_plain_prefix parse_suffix)
qed

lemma lang_lits: "lang (seq_list (map (\<lambda>c. Atom (Lit c)) n @ rs)) = conc {n} (lang (seq_list rs))"
proof (induction n)
  case Nil
  then show ?case by (auto simp: conc_def)
next
  case (Cons c n)
  have "conc {[c]} (conc {n} B) = conc {c # n} B" for B
    by (auto simp: conc_def) 
  with Cons show ?case by simp
qed

lemma star_ws: "w \<in> star {[c] | c. is_space c} \<longleftrightarrow> list_all is_space w"
proof
  assume "w \<in> star {[c] | c. is_space c}"
  then show "list_all is_space w"
    by (induction rule: star.induct) auto
next
  assume "list_all is_space w"
  then show "w \<in> star {[c] | c. is_space c}"
  proof (induction w)
    case Nil
    then show ?case by (simp add: star_nil)
  next
    case (Cons c w)
    then have "[c] @ w \<in> star {[c] | c. is_space c}"
      by (intro star_app) auto
    then show ?case by simp
  qed
qed

lemma lang_blank: "lang (Seq (Atom Ws) (Star (Atom Ws))) = {w. blank w}"
proof -
  have "w \<in> conc {[c] | c. is_space c} (star {[c] | c. is_space c}) \<longleftrightarrow> blank w" for w
  proof (cases w)
    case Nil
    then show ?thesis by (simp add: nil_in_conc blank_def)
  next
    case (Cons c v)
    then show ?thesis by (simp add: cons_in_conc star_ws blank_def)
  qed
  then show ?thesis by auto
qed

lemma lang_word: "lang (seq_list (map (\<lambda>c. Atom (Lit c)) s)) = {s}"
  using lang_lits [of s "[]"] by (simp add: conc_def)

lemma in_conc6:
  "m \<in> conc A (conc {p} (conc B (conc S (conc C (conc {q} {[]}))))) \<longleftrightarrow>
     (\<exists>w1 w2 st w3. m = w1 @ p @ w2 @ st @ w3 @ q \<and> w1 \<in> A \<and> w2 \<in> B \<and> st \<in> S \<and> w3 \<in> C)"
proof
  assume "m \<in> conc A (conc {p} (conc B (conc S (conc C (conc {q} {[]})))))"
  then obtain w1 r1 where 1: "m = w1 @ r1" "w1 \<in> A" "r1 \<in> conc {p} (conc B (conc S (conc C (conc {q} {[]}))))"
    unfolding in_conc [of m] by blast
  then obtain r2 where 2: "r1 = p @ r2" "r2 \<in> conc B (conc S (conc C (conc {q} {[]})))"
    unfolding in_conc [of r1] by blast
  then obtain w2 r3 where 3: "r2 = w2 @ r3" "w2 \<in> B" "r3 \<in> conc S (conc C (conc {q} {[]}))"
    unfolding in_conc [of r2] by blast
  then obtain st r4 where 4: "r3 = st @ r4" "st \<in> S" "r4 \<in> conc C (conc {q} {[]})"
    unfolding in_conc [of r3] by blast
  then obtain w3 r5 where 5: "r4 = w3 @ r5" "w3 \<in> C" "r5 \<in> conc {q} {[]}"
    unfolding in_conc [of r4] by blast
  then have 6: "r5 = q" unfolding in_conc [of r5] by simp
  from 1 2 3 4 5 6 have "m = w1 @ p @ w2 @ st @ w3 @ q" by simp
  with 1 3 4 5 show "\<exists>w1 w2 st w3. m = w1 @ p @ w2 @ st @ w3 @ q \<and> w1 \<in> A \<and> w2 \<in> B \<and> st \<in> S \<and> w3 \<in> C"
    by blast
next
  assume "\<exists>w1 w2 st w3. m = w1 @ p @ w2 @ st @ w3 @ q \<and> w1 \<in> A \<and> w2 \<in> B \<and> st \<in> S \<and> w3 \<in> C"
  then obtain w1 w2 st w3 where m: "m = w1 @ p @ w2 @ st @ w3 @ q"
    and in_sets: "w1 \<in> A" "w2 \<in> B" "st \<in> S" "w3 \<in> C" by blast
  have "q \<in> conc {q} {[]}" by (simp add: in_conc)
  with in_sets have "w3 @ q \<in> conc C (conc {q} {[]})" unfolding in_conc [of "w3 @ q"] by blast
  with in_sets have "st @ w3 @ q \<in> conc S (conc C (conc {q} {[]}))"
    unfolding in_conc [of "st @ w3 @ q"] by blast
  with in_sets have "w2 @ st @ w3 @ q \<in> conc B (conc S (conc C (conc {q} {[]})))"
    unfolding in_conc [of "w2 @ st @ w3 @ q"] by blast
  then have "p @ w2 @ st @ w3 @ q \<in> conc {p} (conc B (conc S (conc C (conc {q} {[]}))))"
    unfolding in_conc [of "p @ w2 @ st @ w3 @ q"] by blast
  with in_sets have "w1 @ p @ w2 @ st @ w3 @ q \<in> conc A (conc {p} (conc B (conc S (conc C (conc {q} {[]})))))"
    unfolding in_conc [of "w1 @ p @ w2 @ st @ w3 @ q"] by blast
  with m show "m \<in> conc A (conc {p} (conc B (conc S (conc C (conc {q} {[]})))))" by simp
qed

lemma lang_tail:
  "m \<in> lang (seq_list tail_items) \<longleftrightarrow>
     (\<exists>w1 w2 st w3. m = w1 @ ''|'' @ w2 @ st @ w3 @ ''|'' \<and> blank w1 \<and> blank w2 \<and> blank w3
        \<and> (st = ''ACTIVE'' \<or> st = ''KILLED''))"
proof -
  have pipe: "lang (Atom (Lit CHR ''|'')) = {''|''}" by auto
  have st: "lang (Alt (seq_list (map (\<lambda>c. Atom (Lit c)) ''ACTIVE'')) (seq_list (map (\<lambda>c. Atom (Lit c)) ''KILLED''))) = {''ACTIVE'', ''KILLED''}"
    unfolding lang.simps(4) lang_word by auto
  have "lang (seq_list tail_items) =
      conc {w. blank w} (conc {''|''} (conc {w. blank w} (conc {''ACTIVE'', ''KILLED''} (conc {w. blank w} (conc {''|''} {[]})))))"
    unfolding tail_items_def seq_list.simps
    using lang_blank by (simp only: lang.simps(5) pipe st lang.simps(2))
  then have "m \<in> lang (seq_list tail_items) \<longleftrightarrow>
     (\<exists>w1 w2 st w3. m = w1 @ ''|'' @ w2 @ st @ w3 @ ''|'' \<and> w1 \<in> {w. blank w} \<and> w2 \<in> {w. blank w}
        \<and> st \<in> {''ACTIVE'', ''KILLED''} \<and> w3 \<in> {w. blank w})"
    by (simp only: in_conc6)
  also have "\<dots> \<longleftrightarrow> (\<exists>w1 w2 st w3. m = w1 @ ''|'' @ w2 @ st @ w3 @ ''|'' \<and> blank w1 \<and> blank w2 \<and> blank w3
        \<and> (st = ''ACTIVE'' \<or> st = ''KILLED''))"
    by (simp only: mem_Collect_eq insert_iff empty_iff) blast
  finally show ?thesis .
qed

lemma safe_verdict_plain:
  assumes "plain_name n"
  shows "safe_verdict lib n out = Inr (\<not> listed n out)"
proof -
  let ?r = "seq_list (map (\<lambda>c. Atom (Lit c)) n @ tail_items)"
  have "re_search ?r out \<longleftrightarrow> listed n out"
  proof
    assume "re_search ?r out"
    then obtain p m t where out: "out = p @ m @ t" and m: "m \<in> lang ?r"
      unfolding re_search_lang by blast
    from m obtain v where "m = n @ v" "v \<in> lang (seq_list tail_items)"
      unfolding lang_lits in_conc [of m] by blast
    then obtain w1 w2 st w3 where "m = n @ w1 @ ''|'' @ w2 @ st @ w3 @ ''|''"
      "blank w1" "blank w2" "blank w3" "st = ''ACTIVE'' \<or> st = ''KILLED''"
      unfolding lang_tail by blast
    with out have "out = p @ n @ w1 @ ''|'' @ w2 @ st @ w3 @ ''|'' @ t \<and> blank w1 \<and> blank w2 \<and> blank w3
        \<and> (st = ''ACTIVE'' \<or> st = ''KILLED'')" by simp
    then show "listed n out" unfolding listed_def by blast
  next
    assume "listed n out"
    then obtain pre w1 w2 st w3 post where out: "out = pre @ n @ w1 @ ''|'' @ w2 @ st @ w3 @ ''|'' @ post"
      and b: "blank w1" "blank w2" "blank w3" "st = ''ACTIVE'' \<or> st = ''KILLED''"
      unfolding listed_def by blast
    from b have "w1 @ ''|'' @ w2 @ st @ w3 @ ''|'' \<in> lang (seq_list tail_items)"
      unfolding lang_tail by blast
    then have "n @ w1 @ ''|'' @ w2 @ st @ w3 @ ''|'' \<in> lang ?r"
      unfolding lang_lits in_conc [of "n @ w1 @ ''|'' @ w2 @ st @ w3 @ ''|''"] by blast
    moreover from out have "out = pre @ (n @ w1 @ ''|'' @ w2 @ st @ w3 @ ''|'') @ post" by simp
    ultimately show "re_search ?r out" unfolding re_search_lang by blast
  qed
  with assms show ?thesis
    by (simp add: safe_verdict_def compile_plain)
qed


section \<open>Properties of the safety check\<close>

lemma is_safe_to_submit_returns:
  assumes "env (trace w @ [ListTopologies host port]) = Returns r"
  shows "is_safe_to_submit lib env n host port w =
           (if \<not> ok r then Inl (RuntimeError ''Error running streamparse.commands.list/-main'')
            else safe_verdict lib n (stdout r),
            w\<lparr>trace := trace w @ [ListTopologies host port]\<rparr>)"
  using assms by (simp add: is_safe_to_submit_def external_def and_then_def raise_def)

text \<open>
  For a plain name and a listing that was obtained, the check returns false exactly
  when the listing contains the name followed by white space, a bar, white space,
  \<open>ACTIVE\<close> or \<open>KILLED\<close>, white space and a bar, and true otherwise.
\<close>

lemma is_safe_to_submit_plain:
  assumes "plain_name n"
    and "env (trace w @ [ListTopologies host port]) = Returns r"
    and "ok r"
  shows "fst (is_safe_to_submit lib env n host port w) = Inr (\<not> listed n (stdout r))"
  using assms by (simp add: is_safe_to_submit_returns safe_verdict_plain)

lemma search_listed:
  "re_search (seq_list (map (\<lambda>c. Atom (Lit c)) n @ tail_items)) out \<longleftrightarrow> listed n out"
proof
  let ?r = "seq_list (map (\<lambda>c. Atom (Lit c)) n @ tail_items)"
  assume "re_search ?r out"
  then obtain p m t where out: "out = p @ m @ t" and m: "m \<in> lang ?r"
    unfolding re_search_lang by blast
  from m obtain v where "m = n @ v" "v \<in> lang (seq_list tail_items)"
    unfolding lang_lits in_conc [of m] by blast
  then obtain w1 w2 st w3 where "m = n @ w1 @ ''|'' @ w2 @ st @ w3 @ ''|''"
    "blank w1" "blank w2" "blank w3" "st = ''ACTIVE'' \<or> st = ''KILLED''"
    unfolding lang_tail by blast
  with out have "out = p @ n @ w1 @ ''|'' @ w2 @ st @ w3 @ ''|'' @ t \<and> blank w1 \<and> blank w2 \<and> blank w3
      \<and> (st = ''ACTIVE'' \<or> st = ''KILLED'')" by simp
  then show "listed n out" unfolding listed_def by blast
next
  let ?r = "seq_list (map (\<lambda>c. Atom (Lit c)) n @ tail_items)"
  assume "listed n out"
  then obtain pre w1 w2 st w3 post where out: "out = pre @ n @ w1 @ ''|'' @ w2 @ st @ w3 @ ''|'' @ post"
    and b: "blank w1" "blank w2" "blank w3" "st = ''ACTIVE'' \<or> st = ''KILLED''"
    unfolding listed_def by blast
  from b have "w1 @ ''|'' @ w2 @ st @ w3 @ ''|'' \<in> lang (seq_list tail_items)"
    unfolding lang_tail by blast
  then have "n @ w1 @ ''|'' @ w2 @ st @ w3 @ ''|'' \<in> lang ?r"
    unfolding lang_lits in_conc [of "n @ w1 @ ''|'' @ w2 @ st @ w3 @ ''|''"] by blast
  moreover from out have "out = pre @ (n @ w1 @ ''|'' @ w2 @ st @ w3 @ ''|'') @ post" by simp
  ultimately show "re_search ?r out" unfolding re_search_lang by blast
qed

lemma compile_dot: "re_compile (''a.c'' @ state_suffix) = Parsed dot_pattern"
  by (simp add: re_compile_def state_suffix_def tail_items_def dot_pattern_def close_frame_def
        repeat_def ascii_alnum_def)

lemma in_conc_single: "m \<in> conc {s} B \<longleftrightarrow> (\<exists>v. m = s @ v \<and> v \<in> B)"
  unfolding in_conc by simp

lemma in_conc_class: "m \<in> conc {[x] | x. P x} B \<longleftrightarrow> (\<exists>x v. P x \<and> m = x # v \<and> v \<in> B)"
proof
  assume "m \<in> conc {[x] | x. P x} B"
  then obtain u v where "m = u @ v" "u \<in> {[x] | x. P x}" "v \<in> B" unfolding in_conc by blast
  then obtain x where "P x" "m = x # v" "v \<in> B" by auto
  then show "\<exists>x v. P x \<and> m = x # v \<and> v \<in> B" by blast
next
  assume "\<exists>x v. P x \<and> m = x # v \<and> v \<in> B"
  then obtain x v where "P x" "m = [x] @ v" "v \<in> B" by auto
  then have "m = [x] @ v \<and> [x] \<in> {[x] | x. P x} \<and> v \<in> B" by blast
  then show "m \<in> conc {[x] | x. P x} B" unfolding in_conc by blast
qed

lemma lang_dot:
  "m \<in> lang dot_pattern \<longleftrightarrow>
     (\<exists>x. x \<noteq> NL \<and> m \<in> lang (seq_list (map (\<lambda>c. Atom (Lit c)) [CHR ''a'', x, CHR ''c''] @ tail_items)))"
proof -
  let ?T = "lang (seq_list tail_items)"
  have a: "lang (Atom (Lit CHR ''a'')) = {''a''}" and c: "lang (Atom (Lit CHR ''c'')) = {''c''}"
    and d: "lang (Atom Dot) = {[x] | x. x \<noteq> NL}"
    by auto
  have l: "lang dot_pattern = conc {''a''} (conc {[x] | x. x \<noteq> NL} (conc {''c''} ?T))"
    unfolding dot_pattern_def by (simp only: append.simps seq_list.simps lang.simps(5) a c d)
  have r: "lang (seq_list (map (\<lambda>c. Atom (Lit c)) [CHR ''a'', x, CHR ''c''] @ tail_items))
             = conc {[CHR ''a'', x, CHR ''c'']} ?T" for x
    by (rule lang_lits)
  show ?thesis
  proof
    assume "m \<in> lang dot_pattern"
    then obtain v1 where 1: "m = ''a'' @ v1" "v1 \<in> conc {[x] | x. x \<noteq> NL} (conc {''c''} ?T)"
      unfolding l in_conc_single [of m] by blast
    then obtain x v2 where 2: "x \<noteq> NL" "v1 = x # v2" "v2 \<in> conc {''c''} ?T"
      unfolding in_conc_class [of v1] by blast
    then obtain v3 where 3: "v2 = ''c'' @ v3" "v3 \<in> ?T"
      unfolding in_conc_single [of v2] by blast
    from 1 2 3 have "m = [CHR ''a'', x, CHR ''c''] @ v3" by simp
    with 3 have "m \<in> conc {[CHR ''a'', x, CHR ''c'']} ?T" unfolding in_conc_single [of m] by blast
    with 2(1) show "\<exists>x. x \<noteq> NL \<and>
        m \<in> lang (seq_list (map (\<lambda>c. Atom (Lit c)) [CHR ''a'', x, CHR ''c''] @ tail_items))"
      unfolding r by blast
  next
    assume "\<exists>x. x \<noteq> NL \<and>
        m \<in> lang (seq_list (map (\<lambda>c. Atom (Lit c)) [CHR ''a'', x, CHR ''c''] @ tail_items))"
    then obtain x where x: "x \<noteq> NL" and "m \<in> conc {[CHR ''a'', x, CHR ''c'']} ?T"
      unfolding r by blast
    then obtain v where v: "m = [CHR ''a'', x, CHR ''c''] @ v" "v \<in> ?T"
      unfolding in_conc_single [of m] by blast
    then have "''c'' @ v \<in> conc {''c''} ?T" unfolding in_conc_single [of "''c'' @ v"] by blast
    with x have "x # ''c'' @ v \<in> conc {[x] | x. x \<noteq> NL} (conc {''c''} ?T)"
      unfolding in_conc_class [of "x # ''c'' @ v"] by blast
    then have "''a'' @ x # ''c'' @ v \<in> lang dot_pattern"
      unfolding l in_conc_single [of "''a'' @ x # ''c'' @ v"] by blast
    with v(1) show "m \<in> lang dot_pattern" by simp
  qed
qed

lemma search_dot:
  "re_search dot_pattern out \<longleftrightarrow> (\<exists>x. x \<noteq> NL \<and> listed [CHR ''a'', x, CHR ''c''] out)"
proof
  assume "re_search dot_pattern out"
  then obtain p m t where o: "out = p @ m @ t" and "m \<in> lang dot_pattern"
    unfolding re_search_lang by blast
  then obtain x where x: "x \<noteq> NL"
    and "m \<in> lang (seq_list (map (\<lambda>c. Atom (Lit c)) [CHR ''a'', x, CHR ''c''] @ tail_items))"
    unfolding lang_dot by blast
  with o have "re_search (seq_list (map (\<lambda>c. Atom (Lit c)) [CHR ''a'', x, CHR ''c''] @ tail_items)) out"
    unfolding re_search_lang by blast
  then have "listed [CHR ''a'', x, CHR ''c''] out" unfolding search_listed .
  with x show "\<exists>x. x \<noteq> NL \<and> listed [CHR ''a'', x, CHR ''c''] out" by blast
next
  assume "\<exists>x. x \<noteq> NL \<and> listed [CHR ''a'', x, CHR ''c''] out"
  then obtain x where x: "x \<noteq> NL" and lx: "listed [CHR ''a'', x, CHR ''c''] out" by blast
  from lx have "re_search (seq_list (map (\<lambda>c. Atom (Lit c)) [CHR ''a'', x, CHR ''c''] @ tail_items)) out"
    unfolding search_listed .
  then obtain p m t where o: "out = p @ m @ t"
    and "m \<in> lang (seq_list (map (\<lambda>c. Atom (Lit c)) [CHR ''a'', x, CHR ''c''] @ tail_items))"
    unfolding re_search_lang by blast
  with x have "m \<in> lang dot_pattern" unfolding lang_dot by blast
  with o show "re_search dot_pattern out" unfolding re_search_lang by blast
qed

lemma safe_verdict_dot:
  "safe_verdict lib ''a.c'' out = Inr (\<not> (\<exists>x. x \<noteq> NL \<and> listed [CHR ''a'', x, CHR ''c''] out))"
  unfolding safe_verdict_def compile_dot by (simp add: search_dot)

lemma listed_exact: "listed n (n @ '' | ACTIVE |'')"
proof -
  have "n @ '' | ACTIVE |'' = [] @ n @ '' '' @ ''|'' @ '' '' @ ''ACTIVE'' @ '' '' @ ''|'' @ []
      \<and> blank '' '' \<and> blank '' '' \<and> blank '' '' \<and> (''ACTIVE'' = ''ACTIVE'' \<or> ''ACTIVE'' = ''KILLED'')"
    by (simp add: blank_def is_space_def)
  then show ?thesis unfolding listed_def by blast
qed

text \<open>
  Claim C2 fails on the code. The listing has the line \<open>a+b | ACTIVE |\<close> for the
  name \<open>a+b\<close>, and the check answers true, safe to submit: the name is put into the
  pattern without escaping, so the \<open>+\<close> repeats the \<open>a\<close>. The same pattern finds a
  topology named \<open>aab\<close>. A name without such characters is found on its line.
\<close>

theorem is_safe_to_submit_unescaped_name:
  "spec_listed ''a+b'' ''a+b | ACTIVE |''
   \<and> fst (is_safe_to_submit lib (always ''a+b | ACTIVE |'') ''a+b'' host port w) = Inr True
   \<and> fst (is_safe_to_submit lib (always ''aab | ACTIVE |'') ''a+b'' host port w) = Inr False
   \<and> fst (is_safe_to_submit lib (always ''ab | ACTIVE |'') ''ab'' host port w) = Inr False"
proof -
  let ?r = "seq_list
      ([Seq (Atom (Lit CHR ''a'')) (Star (Atom (Lit CHR ''a''))), Atom (Lit CHR ''b'')] @ tail_items)"
  have c: "re_compile (''a+b'' @ state_suffix) = Parsed ?r"
    by (simp add: re_compile_def state_suffix_def tail_items_def close_frame_def
        repeat_def ascii_alnum_def)
  have "\<not> re_search ?r ''a+b | ACTIVE |''" by code_simp
  then have 1: "safe_verdict lib ''a+b'' ''a+b | ACTIVE |'' = Inr True"
    unfolding safe_verdict_def c by simp
  have "re_search ?r ''aab | ACTIVE |''" by code_simp
  then have 2: "safe_verdict lib ''a+b'' ''aab | ACTIVE |'' = Inr False"
    unfolding safe_verdict_def c by simp
  have 3: "safe_verdict lib ''ab'' ''ab | ACTIVE |'' = Inr False"
    using safe_verdict_plain [of "''ab''" lib "''ab | ACTIVE |''"] listed_exact [of "''ab''"]
    by (simp add: plain_name_def plain_char_def)
  have 4: "spec_listed ''a+b'' ''a+b | ACTIVE |''" by code_simp
  have r: "fst (is_safe_to_submit lib (always out) n host port w) = safe_verdict lib n out" for n out
    by (simp add: is_safe_to_submit_returns [where r = "ok_result out"] always_def ok_result_def)
  from 1 2 3 4 show ?thesis by (simp add: r)
qed

text \<open>
  Claim C10. The name is read as a pattern. For the name \<open>a.c\<close> the check returns
  false exactly when the listing has, before the bars and the state, an \<open>a\<close>, any one
  character but a newline, and a \<open>c\<close>. So a listing without the text \<open>a.c\<close> and with
  a line for \<open>abc\<close> makes it return false, and so does a line for \<open>a-c\<close>, while a line
  for \<open>abd\<close> leaves it true.
\<close>

theorem is_safe_to_submit_name_is_pattern:
  "(env (trace w @ [ListTopologies host port]) = Returns r \<and> ok r \<longrightarrow>
      fst (is_safe_to_submit lib env ''a.c'' host port w)
        = Inr (\<not> (\<exists>x. x \<noteq> NL \<and> listed [CHR ''a'', x, CHR ''c''] (stdout r))))
   \<and> \<not> contains ''a.c'' ''abc | ACTIVE |''
   \<and> fst (is_safe_to_submit lib (always ''abc | ACTIVE |'') ''a.c'' host port w) = Inr False
   \<and> fst (is_safe_to_submit lib (always ''a-c | ACTIVE |'') ''a.c'' host port w) = Inr False
   \<and> fst (is_safe_to_submit lib (always ''abd | ACTIVE |'') ''a.c'' host port w) = Inr True"
proof (intro conjI impI)
  assume "env (trace w @ [ListTopologies host port]) = Returns r \<and> ok r"
  then show "fst (is_safe_to_submit lib env ''a.c'' host port w)
        = Inr (\<not> (\<exists>x. x \<noteq> NL \<and> listed [CHR ''a'', x, CHR ''c''] (stdout r)))"
    by (simp add: is_safe_to_submit_returns safe_verdict_dot)
next
  show "\<not> contains ''a.c'' ''abc | ACTIVE |''" by code_simp
next
  have "re_search dot_pattern ''abc | ACTIVE |''" by code_simp
  then have "safe_verdict lib ''a.c'' ''abc | ACTIVE |'' = Inr False"
    unfolding safe_verdict_def compile_dot by simp
  then show "fst (is_safe_to_submit lib (always ''abc | ACTIVE |'') ''a.c'' host port w) = Inr False"
    by (simp add: is_safe_to_submit_returns [where r = "ok_result ''abc | ACTIVE |''"]
          always_def ok_result_def)
next
  have "re_search dot_pattern ''a-c | ACTIVE |''" by code_simp
  then have "safe_verdict lib ''a.c'' ''a-c | ACTIVE |'' = Inr False"
    unfolding safe_verdict_def compile_dot by simp
  then show "fst (is_safe_to_submit lib (always ''a-c | ACTIVE |'') ''a.c'' host port w) = Inr False"
    by (simp add: is_safe_to_submit_returns [where r = "ok_result ''a-c | ACTIVE |''"]
          always_def ok_result_def)
next
  have "\<not> re_search dot_pattern ''abd | ACTIVE |''" by code_simp
  then have "safe_verdict lib ''a.c'' ''abd | ACTIVE |'' = Inr True"
    unfolding safe_verdict_def compile_dot by simp
  then show "fst (is_safe_to_submit lib (always ''abd | ACTIVE |'') ''a.c'' host port w) = Inr True"
    by (simp add: is_safe_to_submit_returns [where r = "ok_result ''abd | ACTIVE |''"]
          always_def ok_result_def)
qed

theorem is_safe_to_submit_name_is_pattern_witness:
  "listed ''abc'' ''abc | ACTIVE |''
   \<and> fst (is_safe_to_submit no_other (always ''abc | ACTIVE |'') ''a.c'' None None fresh) = Inr False"
proof -
  have e: "always ''abc | ACTIVE |'' (trace fresh @ [ListTopologies None None])
             = Returns (ok_result ''abc | ACTIVE |'') \<and> ok (ok_result ''abc | ACTIVE |'')"
    by (simp add: always_def ok_result_def)
  have l: "listed ''abc'' ''abc | ACTIVE |''"
    using listed_exact [of "''abc''"] by simp
  then have "\<exists>x. x \<noteq> NL \<and> listed [CHR ''a'', x, CHR ''c''] (stdout (ok_result ''abc | ACTIVE |''))"
    by (intro exI [of _ "CHR ''b''"]) (simp add: ok_result_def)
  with e l is_safe_to_submit_name_is_pattern
      [of "always ''abc | ACTIVE |''" fresh None None "ok_result ''abc | ACTIVE |''" no_other]
  show ?thesis by simp
qed

text \<open>
  Claim C8. When the list command fails, the check raises the error and gives no
  verdict, and the caller passes the error on; a verdict is returned only after a list
  command that succeeded.
\<close>

theorem is_safe_to_submit_list_failed:
  "(env (trace w @ [ListTopologies host port]) = Returns r \<and> \<not> ok r \<longrightarrow>
      fst (is_safe_to_submit lib env n host port w)
        = Inl (RuntimeError ''Error running streamparse.commands.list/-main'')
      \<and> u_kill_existing_topology lib env n True wait host port w
        = Some (Inl (RuntimeError ''Error running streamparse.commands.list/-main''),
                w\<lparr>trace := trace w @ [ListTopologies host port]\<rparr>))
   \<and> (fst (is_safe_to_submit lib env n host port w) = Inr b \<longrightarrow>
        (\<exists>r. env (trace w @ [ListTopologies host port]) = Returns r \<and> ok r))"
proof (intro conjI impI)
  assume a: "env (trace w @ [ListTopologies host port]) = Returns r \<and> \<not> ok r"
  then show "fst (is_safe_to_submit lib env n host port w)
        = Inl (RuntimeError ''Error running streamparse.commands.list/-main'')"
    by (simp add: is_safe_to_submit_returns)
  from a show "u_kill_existing_topology lib env n True wait host port w
        = Some (Inl (RuntimeError ''Error running streamparse.commands.list/-main''),
                w\<lparr>trace := trace w @ [ListTopologies host port]\<rparr>)"
    by (simp add: u_kill_existing_topology_def is_safe_to_submit_returns)
next
  assume b: "fst (is_safe_to_submit lib env n host port w) = Inr b"
  show "\<exists>r. env (trace w @ [ListTopologies host port]) = Returns r \<and> ok r"
  proof (cases "env (trace w @ [ListTopologies host port])")
    case (Returns r)
    with b show ?thesis by (cases "ok r") (simp_all add: is_safe_to_submit_returns)
  next
    case (Raises m)
    with b show ?thesis
      by (simp add: is_safe_to_submit_def external_def and_then_def)
  qed
qed

theorem is_safe_to_submit_list_failed_witness:
  "fst (is_safe_to_submit no_other failing ''wc'' None None fresh)
     = Inl (RuntimeError ''Error running streamparse.commands.list/-main'')
   \<and> u_kill_existing_topology no_other failing ''wc'' True None None None fresh
     = Some (Inl (RuntimeError ''Error running streamparse.commands.list/-main''),
             fresh\<lparr>trace := [ListTopologies None None]\<rparr>)
   \<and> fst (is_safe_to_submit no_other (always []) ''wc'' None None fresh) = Inr True
   \<and> (\<exists>r. always [] (trace fresh @ [ListTopologies None None]) = Returns r \<and> ok r)"
proof -
  have f: "failing (trace fresh @ [ListTopologies None None])
             = Returns \<lparr>ok = False, stdout = [], stderr = ''error''\<rparr>
           \<and> \<not> ok \<lparr>ok = False, stdout = [], stderr = ''error''\<rparr>"
    by (simp add: failing_def)
  have s: "fst (is_safe_to_submit no_other (always []) ''wc'' None None fresh) = Inr True"
    by code_simp
  from f s
    is_safe_to_submit_list_failed [of failing fresh None None
      "\<lparr>ok = False, stdout = [], stderr = ''error''\<rparr>" no_other "''wc''" None True]
    is_safe_to_submit_list_failed [of "always []" fresh None None "ok_result []" no_other "''wc''" None True]
  show ?thesis by (simp add: fresh_def)
qed

section \<open>Properties of the kill phase\<close>

lemma is_safe_to_submit_verdict:
  "is_safe_to_submit lib env n host port w =
     (verdict_at lib env n (trace w @ [ListTopologies host port]),
      w\<lparr>trace := trace w @ [ListTopologies host port]\<rparr>)"
  by (cases "env (trace w @ [ListTopologies host port])")
     (simp_all add: is_safe_to_submit_def external_def and_then_def raise_def verdict_at_def)

lemma polls_snoc:
  "polls host port (Suc k) = polls host port k @ [ListTopologies host port, Sleep 500]"
  by (induction k) simp_all




lemma perform_eq:
  "perform env c w =
     (case env (trace w @ [c]) of Raises m \<Rightarrow> Inl (External m) | Returns r \<Rightarrow> Inr (),
      w\<lparr>trace := trace w @ [c]\<rparr>)"
  by (cases "env (trace w @ [c])")
     (simp_all add: perform_def external_def and_then_def succeed_def)









text \<open>
  Claim C7. Without \<open>force\<close> the kill phase returns at once: it makes no call, so it
  neither queries the listing nor kills, whatever the cluster would answer.
\<close>

theorem kill_phase_without_force:
  "u_kill_existing_topology lib env n False wait host port w = Some (Inr (), w)"
  by (simp add: u_kill_existing_topology_def)

section \<open>Properties of the submission command\<close>

lemmas cmd_eval = submit_cmd_def base_cmd_def parallelism_options_def python_path_option_def
  log_options_def bare_config_def dict_get_default_def dict_get_def py_or_def squote_def dquote_def
  str_int_def digits.simps digit_def Let_def

lemma split_on_nonempty: "split_on c s \<noteq> []"
  by (induction s) (auto split: list.splits)

lemma split_on_single: "split_on c s = [k] \<Longrightarrow> s = k \<and> c \<notin> set k"
proof (induction s arbitrary: k)
  case Nil
  then show ?case by simp
next
  case (Cons d s)
  then show ?case
    by (auto simp: split_on_nonempty split: if_splits list.splits)
qed

lemma split_on_pair:
  "split_on c s = [k, v] \<Longrightarrow> s = k @ [c] @ v \<and> c \<notin> set k \<and> c \<notin> set v"
proof (induction s arbitrary: k)
  case Nil
  then show ?case by simp
next
  case (Cons d s)
  show ?case
  proof (cases "d = c")
    case True
    with Cons.prems have "k = []" and "split_on c s = [v]" by simp_all
    with True split_on_single [of c s v] show ?thesis by simp
  next
    case False
    with Cons.prems obtain x where "k = d # x" and "split_on c s = [x, v]"
      by (auto split: list.splits)
    with False Cons.IH [of x] show ?thesis by simp
  qed
qed

lemma add_user_options_rendered:
  "add_user_options cmd os = Inr cmd' \<Longrightarrow> \<exists>args. cmd' = cmd @ args \<and> list_all2 rendered os args"
proof (induction os arbitrary: cmd)
  case Nil
  then show ?case by simp
next
  case (Cons option os)
  show ?case
  proof (cases "contains ''deployment_stage'' option")
    case True
    with Cons.prems obtain key val where kv: "split_on CHR ''='' option = [key, val]"
      and rest: "add_user_options (cmd @ [''--option '' @ squote (key @ ''='' @ dquote val)]) os = Inr cmd'"
      by (auto split: list.splits)
    from kv have "option = key @ ''='' @ val \<and> CHR ''='' \<notin> set key \<and> CHR ''='' \<notin> set val"
      using split_on_pair [of "CHR ''=''" option key val] by simp
    with True have r: "rendered option (''--option '' @ squote (key @ ''='' @ dquote val))"
      unfolding rendered_def by auto
    from Cons.IH [OF rest] obtain args where
      "cmd' = (cmd @ [''--option '' @ squote (key @ ''='' @ dquote val)]) @ args" "list_all2 rendered os args"
      by blast
    with r have "cmd' = cmd @ ((''--option '' @ squote (key @ ''='' @ dquote val)) # args)
        \<and> list_all2 rendered (option # os) ((''--option '' @ squote (key @ ''='' @ dquote val)) # args)"
      by simp
    then show ?thesis by blast
  next
    case False
    with Cons.prems have rest: "add_user_options (cmd @ [''--option '' @ option]) os = Inr cmd'"
      by simp
    from False have r: "rendered option (''--option '' @ option)"
      unfolding rendered_def by simp
    from Cons.IH [OF rest] obtain args where
      "cmd' = (cmd @ [''--option '' @ option]) @ args" "list_all2 rendered os args"
      by blast
    with r have "cmd' = cmd @ ((''--option '' @ option) # args)
        \<and> list_all2 rendered (option # os) ((''--option '' @ option) # args)"
      by simp
    then show ?thesis by blast
  qed
qed

lemma base_cmd_shape:
  "\<exists>flags. base_cmd file host port debug
      = [''lein'', ''run -m streamparse.commands.submit_topology/-main'', file] @ flags
    \<and> list_all (\<lambda>a. \<not> starts_with a ''--option'') flags"
  by (cases host; cases port; cases debug) (auto simp: base_cmd_def Let_def)

lemma add_user_options_extends:
  "add_user_options cmd os = Inr cmd' \<Longrightarrow> \<exists>args. cmd' = cmd @ args"
  using add_user_options_rendered by blast

text \<open>
  Claim C6. In every command that is built, the first two options are the number of
  workers and the number of acker executors, in this order: only the program, the
  topology file and the host, port and debug flags come before them, and the
  interpreter path, the logging options and the user's options come after them. This
  holds for all integers, so for all that are not negative.
\<close>

theorem workers_ackers_first:
  assumes "submit_cmd n file ec workers ackers options debug host port = Inr cmd"
  shows "\<exists>flags rest.
           cmd = [''lein'', ''run -m streamparse.commands.submit_topology/-main'', file] @ flags
                 @ [''--option '' @ squote (''topology.workers='' @ str_int workers),
                    ''--option '' @ squote (''topology.acker.executors='' @ str_int ackers)]
                 @ rest
           \<and> list_all (\<lambda>a. \<not> starts_with a ''--option'') flags"
proof (cases "python_path_option ec n")
  case (Inl e)
  with assms show ?thesis by (simp add: submit_cmd_def)
next
  case (Inr py)
  obtain flags where b: "base_cmd file host port debug
      = [''lein'', ''run -m streamparse.commands.submit_topology/-main'', file] @ flags"
    and f: "list_all (\<lambda>a. \<not> starts_with a ''--option'') flags"
    using base_cmd_shape by blast
  from Inr assms obtain args where
    "cmd = (base_cmd file host port debug @ parallelism_options workers ackers @ py @ log_options ec) @ args"
    using add_user_options_extends unfolding submit_cmd_def by (fastforce simp: Let_def)
  with b have "cmd = [''lein'', ''run -m streamparse.commands.submit_topology/-main'', file] @ flags
                 @ [''--option '' @ squote (''topology.workers='' @ str_int workers),
                    ''--option '' @ squote (''topology.acker.executors='' @ str_int ackers)]
                 @ (py @ log_options ec @ args)"
    by (simp add: parallelism_options_def)
  with f show ?thesis by blast
qed

theorem workers_ackers_first_witness:
  "submit_cmd ''wc'' ''topologies/wc.clj'' bare_config 2 1 None True (Some ''nimbus'') (Some 6627)
     = Inr [''lein'', ''run -m streamparse.commands.submit_topology/-main'', ''topologies/wc.clj'',
            ''--host nimbus'', ''--port 6627'', ''--debug'',
            ''--option '' @ squote ''topology.workers=2'',
            ''--option '' @ squote ''topology.acker.executors=1'']
   \<and> (\<exists>flags rest.
         [''lein'', ''run -m streamparse.commands.submit_topology/-main'', ''topologies/wc.clj'',
          ''--host nimbus'', ''--port 6627'', ''--debug'',
          ''--option '' @ squote ''topology.workers=2'',
          ''--option '' @ squote ''topology.acker.executors=1'']
         = [''lein'', ''run -m streamparse.commands.submit_topology/-main'', ''topologies/wc.clj'']
           @ flags
           @ [''--option '' @ squote (''topology.workers='' @ str_int 2),
              ''--option '' @ squote (''topology.acker.executors='' @ str_int 1)]
           @ rest
         \<and> list_all (\<lambda>a. \<not> starts_with a ''--option'') flags)"
proof -
  have e: "submit_cmd ''wc'' ''topologies/wc.clj'' bare_config 2 1 None True (Some ''nimbus'') (Some 6627)
     = Inr [''lein'', ''run -m streamparse.commands.submit_topology/-main'', ''topologies/wc.clj'',
            ''--host nimbus'', ''--port 6627'', ''--debug'',
            ''--option '' @ squote ''topology.workers=2'',
            ''--option '' @ squote ''topology.acker.executors=1'']"
    by (simp add: cmd_eval)
  from workers_ackers_first [OF e] e show ?thesis by blast
qed

lemma length_split_on: "length (split_on c s) = Suc (length (filter (\<lambda>x. x = c) s))"
proof (induction s)
  case Nil
  then show ?case by simp
next
  case (Cons d s)
  then show ?case
    by (cases "split_on c s") (auto simp: split_on_nonempty)
qed

lemma split_on_quotable: "quotable option \<longleftrightarrow> (\<exists>key val. split_on CHR ''='' option = [key, val])"
proof -
  have "quotable option \<longleftrightarrow> length (split_on CHR ''='' option) = 2"
    by (simp add: quotable_def length_split_on)
  also have "\<dots> \<longleftrightarrow> (\<exists>key val. split_on CHR ''='' option = [key, val])"
    by (cases "split_on CHR ''='' option" rule: list.exhaust)
       (auto simp: length_Suc_conv)
  finally show ?thesis .
qed

lemma add_user_options_acceptable:
  "list_all acceptable os \<Longrightarrow>
     \<exists>args. add_user_options cmd os = Inr (cmd @ args) \<and> list_all2 rendered os args"
proof (induction os arbitrary: cmd)
  case Nil
  then show ?case by simp
next
  case (Cons option os)
  then have rest: "list_all acceptable os" and this_one: "acceptable option" by simp_all
  show ?case
  proof (cases "contains ''deployment_stage'' option")
    case True
    with this_one obtain key val where kv: "split_on CHR ''='' option = [key, val]"
      unfolding acceptable_def split_on_quotable by blast
    let ?arg = "''--option '' @ squote (key @ ''='' @ dquote val)"
    from kv have "option = key @ ''='' @ val \<and> CHR ''='' \<notin> set key \<and> CHR ''='' \<notin> set val"
      using split_on_pair [of "CHR ''=''" option key val] by simp
    with True have r: "rendered option ?arg" unfolding rendered_def by auto
    from Cons.IH [OF rest, of "cmd @ [?arg]"] obtain args where
      "add_user_options (cmd @ [?arg]) os = Inr ((cmd @ [?arg]) @ args)" "list_all2 rendered os args"
      by blast
    with True kv r have "add_user_options cmd (option # os) = Inr (cmd @ (?arg # args))
        \<and> list_all2 rendered (option # os) (?arg # args)"
      by simp
    then show ?thesis by blast
  next
    case False
    let ?arg = "''--option '' @ option"
    from False have r: "rendered option ?arg" unfolding rendered_def by simp
    from Cons.IH [OF rest, of "cmd @ [?arg]"] obtain args where
      "add_user_options (cmd @ [?arg]) os = Inr ((cmd @ [?arg]) @ args)" "list_all2 rendered os args"
      by blast
    with False r have "add_user_options cmd (option # os) = Inr (cmd @ (?arg # args))
        \<and> list_all2 rendered (option # os) (?arg # args)"
      by simp
    then show ?thesis by blast
  qed
qed

lemma add_user_options_unacceptable:
  "\<not> list_all acceptable os \<Longrightarrow> add_user_options cmd os = Inl ValueError"
proof (induction os arbitrary: cmd)
  case Nil
  then show ?case by simp
next
  case (Cons option os)
  show ?case
  proof (cases "acceptable option")
    case False
    then have c: "contains ''deployment_stage'' option"
      and "\<not> (\<exists>key val. split_on CHR ''='' option = [key, val])"
      unfolding acceptable_def split_on_quotable by simp_all
    then have "(case split_on CHR ''='' option of
           [key, val] \<Rightarrow>
             add_user_options (cmd @ [''--option '' @ squote (key @ ''='' @ dquote val)]) os
         | _ \<Rightarrow> Inl ValueError) = Inl ValueError"
      by (auto split: list.splits)
    with c show ?thesis by simp
  next
    case True
    with Cons.prems have rest: "\<not> list_all acceptable os" by simp
    show ?thesis
    proof (cases "contains ''deployment_stage'' option")
      case c: True
      with True obtain key val where kv: "split_on CHR ''='' option = [key, val]"
        unfolding acceptable_def split_on_quotable by blast
      with c Cons.IH [OF rest] show ?thesis by simp
    next
      case False
      with Cons.IH [OF rest] show ?thesis by simp
    qed
  qed
qed

text \<open>
  Claim C5, as amended. The user's options are appended after everything else, one
  argument for each option and in their order. An option in which the text
  \<open>deployment_stage\<close> occurs nowhere is passed as it is; an option in which it occurs,
  in the key or in the value, and which has exactly one \<open>=\<close>, so the form \<open>key=val\<close>, is
  passed as \<open>key="val"\<close> inside single quotes. When some option in which the text
  occurs has not exactly one \<open>=\<close>, building the command raises \<open>ValueError\<close>. An error
  raised while the command is built is the result of the submitter, and no command is run.
\<close>

theorem user_options_rendered:
  "(submit_cmd n tfile ec workers ackers None debug host port = Inl e \<longrightarrow>
      submit_cmd n tfile ec workers ackers (Some opts) debug host port = Inl e)
   \<and> (submit_cmd n tfile ec workers ackers None debug host port = Inr front \<longrightarrow>
        (if list_all acceptable opts
         then \<exists>args. submit_cmd n tfile ec workers ackers (Some opts) debug host port
                        = Inr (front @ args)
                    \<and> list_all2 rendered opts args
         else submit_cmd n tfile ec workers ackers (Some opts) debug host port = Inl ValueError))
   \<and> (submit_cmd n tfile ec workers ackers options debug host port = Inl e' \<longrightarrow>
        fst (u_submit_topology env n tfile jar ec workers ackers options debug host port w) = Inl e'
        \<and> trace (snd (u_submit_topology env n tfile jar ec workers ackers options debug host port w))
            = trace w)"
proof (intro conjI impI)
  assume "submit_cmd n tfile ec workers ackers None debug host port = Inl e"
  then show "submit_cmd n tfile ec workers ackers (Some opts) debug host port = Inl e"
    by (cases "python_path_option ec n") (simp_all add: submit_cmd_def)
next
  assume a: "submit_cmd n tfile ec workers ackers None debug host port = Inr front"
  then obtain py where py: "python_path_option ec n = Inr py"
    by (cases "python_path_option ec n") (simp_all add: submit_cmd_def)
  let ?front = "base_cmd tfile host port debug @ parallelism_options workers ackers @ py @ log_options ec"
  from a py have f: "front = ?front" by (simp add: submit_cmd_def)
  from py have s: "submit_cmd n tfile ec workers ackers (Some opts) debug host port
      = add_user_options ?front opts" by (simp add: submit_cmd_def)
  show "if list_all acceptable opts
         then \<exists>args. submit_cmd n tfile ec workers ackers (Some opts) debug host port
                        = Inr (front @ args)
                    \<and> list_all2 rendered opts args
         else submit_cmd n tfile ec workers ackers (Some opts) debug host port = Inl ValueError"
  proof (cases "list_all acceptable opts")
    case True
    with add_user_options_acceptable [of opts ?front] show ?thesis by (simp add: s f)
  next
    case False
    with add_user_options_unacceptable [of opts ?front] show ?thesis by (simp add: s)
  qed
next
  assume "submit_cmd n tfile ec workers ackers options debug host port = Inl e'"
  then show "fst (u_submit_topology env n tfile jar ec workers ackers options debug host port w) = Inl e'"
    and "trace (snd (u_submit_topology env n tfile jar ec workers ackers options debug host port w))
            = trace w"
    by (simp_all add: u_submit_topology_def raise_def)
qed

theorem user_options_rendered_witness:
  "submit_cmd ''wc'' ''topologies/wc.clj'' bare_config 2 1
       (Some [''foo=bar'', ''deployment_stage=prod'']) False None None
     = Inr [''lein'', ''run -m streamparse.commands.submit_topology/-main'', ''topologies/wc.clj'',
            ''--option '' @ squote ''topology.workers=2'',
            ''--option '' @ squote ''topology.acker.executors=1'',
            ''--option foo=bar'',
            ''--option '' @ squote (''deployment_stage='' @ dquote ''prod'')]
   \<and> (\<exists>args. submit_cmd ''wc'' ''topologies/wc.clj'' bare_config 2 1
                (Some [''foo=bar'', ''deployment_stage=prod'']) False None None
              = Inr ([''lein'', ''run -m streamparse.commands.submit_topology/-main'',
                      ''topologies/wc.clj'',
                      ''--option '' @ squote ''topology.workers=2'',
                      ''--option '' @ squote ''topology.acker.executors=1''] @ args)
            \<and> list_all2 rendered [''foo=bar'', ''deployment_stage=prod''] args)
   \<and> submit_cmd ''wc'' ''topologies/wc.clj'' bare_config 2 1
         (Some [''ok=1'', ''deployment_stage=a=b'']) False None None = Inl ValueError
   \<and> submit_cmd ''wc'' ''topologies/wc.clj'' bare_config 2 1
         (Some [''deployment_stage'']) False None None = Inl ValueError"
proof -
  let ?front = "[''lein'', ''run -m streamparse.commands.submit_topology/-main'',
                 ''topologies/wc.clj'',
                 ''--option '' @ squote ''topology.workers=2'',
                 ''--option '' @ squote ''topology.acker.executors=1'']"
  have f: "submit_cmd ''wc'' ''topologies/wc.clj'' bare_config 2 1 None False None None = Inr ?front"
    by (simp add: cmd_eval)
  have e: "submit_cmd ''wc'' ''topologies/wc.clj'' bare_config 2 1
       (Some [''foo=bar'', ''deployment_stage=prod'']) False None None
     = Inr (?front @ [''--option foo=bar'',
            ''--option '' @ squote (''deployment_stage='' @ dquote ''prod'')])"
    by (simp add: cmd_eval)
  have a1: "list_all acceptable [''foo=bar'', ''deployment_stage=prod'']"
    by (simp add: acceptable_def quotable_def)
  have a2: "\<not> list_all acceptable [''ok=1'', ''deployment_stage=a=b'']"
    by (simp add: acceptable_def quotable_def)
  have a3: "\<not> list_all acceptable [''deployment_stage'']"
    by (simp add: acceptable_def quotable_def)
  note u = user_options_rendered [where n = "''wc''" and tfile = "''topologies/wc.clj''"
      and ec = bare_config and workers = 2 and ackers = 1 and debug = False and host = None
      and port = None and front = ?front]
  from f a1 u [where opts = "[''foo=bar'', ''deployment_stage=prod'']"]
  have 1: "\<exists>args. submit_cmd ''wc'' ''topologies/wc.clj'' bare_config 2 1
                (Some [''foo=bar'', ''deployment_stage=prod'']) False None None
              = Inr (?front @ args)
            \<and> list_all2 rendered [''foo=bar'', ''deployment_stage=prod''] args"
    by simp
  from f a2 u [where opts = "[''ok=1'', ''deployment_stage=a=b'']"]
  have 2: "submit_cmd ''wc'' ''topologies/wc.clj'' bare_config 2 1
         (Some [''ok=1'', ''deployment_stage=a=b'']) False None None = Inl ValueError"
    by simp
  from f a3 u [where opts = "[''deployment_stage'']"]
  have 3: "submit_cmd ''wc'' ''topologies/wc.clj'' bare_config 2 1
         (Some [''deployment_stage'']) False None None = Inl ValueError"
    by simp
  from e 1 2 3 show ?thesis by simp
qed

text \<open>
  Claim C5 as stated fails: the key \<open>foo\<close> of the option \<open>foo=deployment_stage\<close> does
  not contain the reserved text, and the option is quoted all the same instead of being
  passed as it is.
\<close>

theorem user_option_value_counterexample:
  "\<not> contains ''deployment_stage'' ''foo''
   \<and> submit_cmd ''wc'' ''topologies/wc.clj'' bare_config 2 1
         (Some [''foo=deployment_stage'']) False None None
       = Inr [''lein'', ''run -m streamparse.commands.submit_topology/-main'', ''topologies/wc.clj'',
              ''--option '' @ squote ''topology.workers=2'',
              ''--option '' @ squote ''topology.acker.executors=1'',
              ''--option '' @ squote (''foo='' @ dquote ''deployment_stage'')]
   \<and> ''--option '' @ squote (''foo='' @ dquote ''deployment_stage'') \<noteq> ''--option foo=deployment_stage''"
  by (simp add: cmd_eval)

section \<open>The calls of each phase\<close>

lemma extended_refl: "extended Q w w"
  unfolding extended_def by (intro exI [of _ "[]"]) simp

lemma extended_trans:
  assumes "extended Q w w1" and "extended Q w1 w2"
  shows "extended Q w w2"
proof -
  from assms obtain e1 e2 where "w1 = w\<lparr>trace := trace w @ e1\<rparr>" "list_all Q e1"
    "w2 = w1\<lparr>trace := trace w1 @ e2\<rparr>" "list_all Q e2"
    unfolding extended_def by blast
  then have "w2 = w\<lparr>trace := trace w @ (e1 @ e2)\<rparr> \<and> list_all Q (e1 @ e2)" by simp
  then show ?thesis unfolding extended_def by blast
qed

lemma extended_mono:
  assumes "extended Q w w'" and "\<And>c. Q c \<Longrightarrow> R c"
  shows "extended R w w'"
proof -
  from assms(1) obtain evs where "w' = w\<lparr>trace := trace w @ evs\<rparr>" "list_all Q evs"
    unfolding extended_def by blast
  with assms(2) have "w' = w\<lparr>trace := trace w @ evs\<rparr> \<and> list_all R evs"
    by (auto simp: list_all_iff)
  then show ?thesis unfolding extended_def by blast
qed

lemma extended_one: "Q c \<Longrightarrow> extended Q w (w\<lparr>trace := trace w @ [c]\<rparr>)"
  unfolding extended_def by (intro exI [of _ "[c]"]) simp

lemma extended_external: "Q c \<Longrightarrow> extended Q w (snd (external env c w))"
  by (simp add: external_def extended_one)

lemma extended_perform: "Q c \<Longrightarrow> extended Q w (snd (perform env c w))"
  by (simp add: perform_eq extended_one)

lemma extended_succeed: "extended Q w (snd (succeed a w))"
  by (simp add: succeed_def extended_refl)

lemma extended_raise: "extended Q w (snd (raise e w))"
  by (simp add: raise_def extended_refl)

lemma extended_and_then:
  assumes "extended Q w (snd m)" and "\<And>a w1. extended Q w1 (snd (f a w1))"
  shows "extended Q w (snd (and_then m f))"
proof (cases m)
  case (Pair r w1)
  show ?thesis
  proof (cases r)
    case (Inl e)
    with Pair assms(1) show ?thesis by (simp add: and_then_def)
  next
    case (Inr a)
    with Pair assms(1) have "extended Q w w1" by simp
    moreover have "extended Q w1 (snd (f a w1))" by (rule assms(2))
    ultimately have "extended Q w (snd (f a w1))" by (rule extended_trans)
    with Pair Inr show ?thesis by (simp add: and_then_def)
  qed
qed

lemma extended_pre_hooks:
  "extended (is_hook_call PreSubmit) w (snd (u_pre_submit_hooks env um n e w))"
  unfolding u_pre_submit_hooks_def
  by (cases "get_user_tasks um")
     (auto intro!: extended_and_then extended_perform extended_succeed)

lemma extended_post_hooks:
  "extended (is_hook_call PostSubmit) w (snd (u_post_submit_hooks env um n e w))"
  unfolding u_post_submit_hooks_def
  by (cases "get_user_tasks um")
     (auto intro!: extended_and_then extended_perform extended_succeed)

lemma extended_jar_for_deploy: "extended build_call w (snd (jar_for_deploy env w))"
  unfolding jar_for_deploy_def
  by (auto intro!: extended_and_then extended_external extended_succeed extended_raise
           simp: build_call_def split: list.splits)

lemma early_prepare: "early_call PrepareTopology"
  and early_activate: "early_call (ActivateEnv e)"
  and early_venvs: "early_call (CreateOrUpdateVirtualenvs e n f)"
  by (simp_all add: early_call_def)

lemma early_pre_hook: "is_hook_call PreSubmit c \<Longrightarrow> early_call c"
  by (cases c) (simp_all add: early_call_def)

lemma early_build: "build_call c \<Longrightarrow> early_call c"
  by (auto simp: build_call_def early_call_def)

lemma extended_build_phase: "extended early_call w (snd (build_phase env p w))"
  unfolding build_phase_def Let_def
  by (intro extended_and_then extended_perform early_prepare)
     (auto intro!: extended_perform extended_succeed extended_raise early_activate early_venvs
        extended_mono [OF extended_pre_hooks early_pre_hook]
        extended_mono [OF extended_jar_for_deploy early_build]
        split: option.splits pyval.splits)

lemma wait_until_safe_done:
  assumes "wait_until_safe lib env n host port w = Some y"
  shows "\<exists>j. snd y = w\<lparr>trace := trace w @ polls host port j @ [ListTopologies host port]\<rparr>
           \<and> (fst y = Inr () \<longrightarrow>
                verdict_at lib env n (trace w @ polls host port j @ [ListTopologies host port]) = Inr True)"
proof (rule wait_until_safe.raw_induct
    [where P = "\<lambda>lib env n host port w y.
       \<exists>j. snd y = w\<lparr>trace := trace w @ polls host port j @ [ListTopologies host port]\<rparr>
           \<and> (fst y = Inr () \<longrightarrow>
                verdict_at lib env n (trace w @ polls host port j @ [ListTopologies host port]) = Inr True)",
     OF _ assms])
  fix wus :: "re_rest \<Rightarrow> replies \<Rightarrow> string \<Rightarrow> string option \<Rightarrow> int option \<Rightarrow> world
                \<Rightarrow> unit outcome option"
    and lib :: re_rest and env :: replies and n :: string and host :: "string option" and port :: "int option"
    and w :: world and y :: "unit outcome"
  assume ih: "\<And>l e m h p v z. wus l e m h p v = Some z \<Longrightarrow>
      \<exists>j. snd z = v\<lparr>trace := trace v @ polls h p j @ [ListTopologies h p]\<rparr>
          \<and> (fst z = Inr () \<longrightarrow> verdict_at l e m (trace v @ polls h p j @ [ListTopologies h p]) = Inr True)"
  assume body: "(case is_safe_to_submit lib env n host port w of
      (Inl e, w') \<Rightarrow> Some (Inl e, w')
      | (Inr safe, w') \<Rightarrow>
          if \<not> safe then wus lib env n host port (sleep 500 w') else Some (Inr (), w')) = Some y"
  let ?L = "ListTopologies host port"
  let ?w1 = "w\<lparr>trace := trace w @ [?L]\<rparr>"
  let ?goal = "\<lambda>j. snd y = w\<lparr>trace := trace w @ polls host port j @ [?L]\<rparr>
           \<and> (fst y = Inr () \<longrightarrow> verdict_at lib env n (trace w @ polls host port j @ [?L]) = Inr True)"
  show "\<exists>j. ?goal j"
  proof (cases "verdict_at lib env n (trace w @ [?L])")
    case (Inl e)
    with body have "?goal 0"
      by (auto simp: is_safe_to_submit_verdict)
    then show ?thesis by blast
  next
    case (Inr safe)
    show ?thesis
    proof (cases safe)
      case True
      with Inr body have "?goal 0"
        by (auto simp: is_safe_to_submit_verdict)
      then show ?thesis by blast
    next
      case False
      with Inr body have rec: "wus lib env n host port (sleep 500 ?w1) = Some y"
        by (simp add: is_safe_to_submit_verdict)
      from ih [OF rec] obtain j where
        "snd y = (sleep 500 ?w1)\<lparr>trace := trace (sleep 500 ?w1) @ polls host port j @ [?L]\<rparr>"
        "fst y = Inr () \<longrightarrow> verdict_at lib env n (trace (sleep 500 ?w1) @ polls host port j @ [?L]) = Inr True"
        by blast
      then have "?goal (Suc j)"
        by (simp add: sleep_def)
      then show ?thesis by blast
    qed
  qed
qed

lemma polls_kill_phase_calls: "list_all kill_phase_call (polls host port j)"
  by (induction j) (simp_all add: kill_phase_call_def)

text \<open>With force: a normal return of the kill phase ends with a listing that found the topology absent.\<close>

lemma kill_phase_forced:
  assumes "u_kill_existing_topology lib env n True wait host port w = Some y"
  shows "\<exists>pre. snd y = w\<lparr>trace := trace w @ pre\<rparr> \<and> list_all kill_phase_call pre
           \<and> (fst y = Inr () \<longrightarrow>
                (\<exists>pre'. pre = pre' @ [ListTopologies host port])
                \<and> verdict_at lib env n (trace w @ pre) = Inr True)"
proof -
  let ?L = "ListTopologies host port"
  let ?K = "KillTopology n wait host port"
  let ?goal = "\<lambda>pre. snd y = w\<lparr>trace := trace w @ pre\<rparr> \<and> list_all kill_phase_call pre
           \<and> (fst y = Inr () \<longrightarrow> (\<exists>pre'. pre = pre' @ [?L]) \<and> verdict_at lib env n (trace w @ pre) = Inr True)"
  show "\<exists>pre. ?goal pre"
  proof (cases "verdict_at lib env n (trace w @ [?L])")
    case (Inl e)
    with assms have "?goal [?L]"
      by (auto simp: u_kill_existing_topology_def is_safe_to_submit_verdict kill_phase_call_def)
    then show ?thesis by blast
  next
    case (Inr safe)
    show ?thesis
    proof (cases safe)
      case True
      with Inr assms have "?goal [?L]"
        by (auto simp: u_kill_existing_topology_def is_safe_to_submit_verdict kill_phase_call_def)
      then show ?thesis by blast
    next
      case False
      show ?thesis
      proof (cases "env (trace w @ [?L, ?K])")
        case (Raises m)
        with False Inr assms have "?goal [?L, ?K]"
          by (auto simp: u_kill_existing_topology_def is_safe_to_submit_verdict perform_eq
                kill_phase_call_def)
        then show ?thesis by blast
      next
        case (Returns r)
        let ?w2 = "w\<lparr>trace := trace w @ [?L, ?K]\<rparr>"
        from Returns False Inr assms have "wait_until_safe lib env n host port ?w2 = Some y"
          by (simp add: u_kill_existing_topology_def is_safe_to_submit_verdict perform_eq)
        from wait_until_safe_done [OF this] obtain j where
          j: "snd y = ?w2\<lparr>trace := trace ?w2 @ polls host port j @ [?L]\<rparr>"
          "fst y = Inr () \<longrightarrow> verdict_at lib env n (trace ?w2 @ polls host port j @ [?L]) = Inr True"
          by blast
        have "list_all kill_phase_call ([?L, ?K] @ polls host port j @ [?L])"
          using polls_kill_phase_calls [of host port j] by (simp add: kill_phase_call_def)
        with j have "?goal ([?L, ?K] @ polls host port j @ [?L])"
          by simp
        then show ?thesis by blast
      qed
    qed
  qed
qed

lemma starts_with_append: "starts_with (a @ b) a"
  by (induction a) simp_all

lemma join_two: "\<exists>t. join sep (x # y # zs) = x @ sep @ y @ t"
  by (cases zs) simp_all

lemma submit_cmd_head:
  assumes "submit_cmd n file ec workers ackers options debug host port = Inr cmd"
  shows "\<exists>rest. cmd = ''lein'' # ''run -m streamparse.commands.submit_topology/-main'' # rest"
proof (cases "python_path_option ec n")
  case (Inl e)
  with assms show ?thesis by (simp add: submit_cmd_def)
next
  case (Inr py)
  obtain flags where b: "base_cmd file host port debug
      = [''lein'', ''run -m streamparse.commands.submit_topology/-main'', file] @ flags"
    using base_cmd_shape by blast
  from Inr assms obtain args where
    "cmd = (base_cmd file host port debug @ parallelism_options workers ackers @ py @ log_options ec) @ args"
    using add_user_options_extends unfolding submit_cmd_def by (fastforce simp: Let_def)
  with b show ?thesis by simp
qed

lemma submit_cmd_is_submit_call:
  assumes "submit_cmd n file ec workers ackers options debug host port = Inr cmd"
  shows "is_submit_call (Run (join '' '' cmd))"
proof -
  from submit_cmd_head [OF assms] obtain rest where
    "cmd = ''lein'' # ''run -m streamparse.commands.submit_topology/-main'' # rest" by blast
  with join_two [of "'' ''" "''lein''" "''run -m streamparse.commands.submit_topology/-main''" rest]
  obtain t where "join '' '' cmd = ''lein run -m streamparse.commands.submit_topology/-main'' @ t"
    by auto
  then show ?thesis
    using starts_with_append [of "''lein run -m streamparse.commands.submit_topology/-main''" t]
    by simp
qed

lemma jvm_opts_text: "jvm_opts jar = ''-Dstorm.jar='' @ jar @ '' -Dstorm.options= -Dstorm.conf.file=''"
  by (simp add: jvm_opts_def)

text \<open>The submitter: the variable is written first; then at most the submit command is run.\<close>

lemma submitter_world:
  "\<exists>evs. snd (u_submit_topology env n file jar ec workers ackers options debug host port w)
           = w\<lparr>trace := trace w @ evs, environ := (environ w)(''JVM_OPTS'' \<mapsto> jvm_opts jar)\<rparr>
         \<and> (evs = [] \<or> (\<exists>cmd. evs = [Run cmd] \<and> is_submit_call (Run cmd)))"
proof (cases "submit_cmd n file ec workers ackers options debug host port")
  case (Inl e)
  then have "snd (u_submit_topology env n file jar ec workers ackers options debug host port w)
           = w\<lparr>trace := trace w @ [], environ := (environ w)(''JVM_OPTS'' \<mapsto> jvm_opts jar)\<rparr>"
    by (simp add: u_submit_topology_def raise_def)
  then show ?thesis by blast
next
  case (Inr cmd)
  then have "snd (u_submit_topology env n file jar ec workers ackers options debug host port w)
           = w\<lparr>trace := trace w @ [Run (join '' '' cmd)],
                environ := (environ w)(''JVM_OPTS'' \<mapsto> jvm_opts jar)\<rparr>"
    by (simp add: u_submit_topology_def perform_eq)
  with submit_cmd_is_submit_call [OF Inr] show ?thesis by blast
qed

section \<open>Properties of the orchestrator\<close>


lemma not_submit_early: "early_call c \<Longrightarrow> \<not> is_submit_call c"
  and not_list_early: "early_call c \<Longrightarrow> \<not> is_list_call c"
  and not_kill_early: "early_call c \<Longrightarrow> \<not> is_kill_call c"
  by (simp_all add: early_call_def)




lemma demo_build:
  "build_phase (cluster k out) demo_project fresh = (Inr demo_jar, fresh\<lparr>trace := demo_start\<rparr>)"
  by (simp add: build_phase_def demo_project_def bare_config_def dict_get_default_def perform_eq
        cluster_def u_pre_submit_hooks_def get_user_tasks_def callable_attr_def jar_for_deploy_def
        external_def and_then_def succeed_def raise_def split_ws_def strip_def lstrip_def
        ends_with_def is_space_def ok_result_def fresh_def demo_jar_def demo_start_def)

lemma demo_submitter:
  "u_submit_topology (cluster k out) ''wc'' ''topologies/wc.clj'' jar bare_config 2 1 None False
       (Some ''nimbus'') (Some 6627) w
     = (Inr (), w\<lparr>trace := trace w @ [demo_submit],
                    environ := (environ w)(''JVM_OPTS'' \<mapsto> jvm_opts jar)\<rparr>)"
  by (simp add: u_submit_topology_def cmd_eval perform_eq cluster_def demo_submit_def)

lemma demo_post:
  "u_post_submit_hooks (cluster k out) (user_mods demo_project) ''wc'' ''prod'' w
     = (Inr (), w\<lparr>trace := trace w @ [CallHook Invoke PostSubmit ''wc'' ''prod'']\<rparr>)"
  by (simp add: u_post_submit_hooks_def demo_project_def get_user_tasks_def callable_attr_def
        perform_eq cluster_def and_then_def succeed_def)

lemma demo_run_unforced:
  "submit_topology lib (cluster k out) demo_project 2 1 None False False None fresh
     = Some (Inr (), \<lparr>trace = demo_start @ [demo_submit, CallHook Invoke PostSubmit ''wc'' ''prod''],
                      environ = [''JVM_OPTS'' \<mapsto> jvm_opts demo_jar]\<rparr>)"
proof -
  have p: "resolved_name demo_project = ''wc''" "resolved_file demo_project = ''topologies/wc.clj''"
    "resolved_env_name demo_project = ''prod''" "resolved_env_config demo_project = bare_config"
    "nimbus_host demo_project = ''nimbus''" "nimbus_port demo_project = 6627"
    "\<not> ssh_for_nimbus demo_project"
    by (simp_all add: demo_project_def)
  show ?thesis
    unfolding submit_topology_def demo_build
    by (simp add: kill_submit_post_def u_kill_existing_topology_def
          p demo_submitter demo_post and_then_def fresh_def)
qed




lemma submit_topology_phases:
  "submit_topology lib env p workers ackers options force debug wait w =
     (case build_phase env p w of
        (Inl e, w1) \<Rightarrow> Some (Inl e, w1)
      | (Inr jar, w1) \<Rightarrow>
          (case open_tunnel env p w1 of
             (Inl e, w2) \<Rightarrow> Some (Inl e, w2)
           | (Inr u, w2) \<Rightarrow>
               map_option (leave_tunnel p)
                 (kill_submit_post lib env p jar workers ackers options force debug wait
                    (deploy_host p) (deploy_port p) w2)))"
proof (cases "build_phase env p w")
  case (Pair r w1)
  show ?thesis
  proof (cases r)
    case (Inl e)
    with Pair show ?thesis by (simp add: submit_topology_def)
  next
    case (Inr jar)
    show ?thesis
    proof (cases "ssh_for_nimbus p")
      case False
      then have "leave_tunnel p = id" by (auto simp: leave_tunnel_def)
      with False Pair Inr show ?thesis
        by (simp add: submit_topology_def open_tunnel_def succeed_def deploy_host_def
              deploy_port_def option.map_id)
    next
      case True
      show ?thesis
      proof (cases "settings (resolved_env_config p) ''user''")
        case None
        with True Pair Inr show ?thesis
          by (simp add: submit_topology_def open_tunnel_def raise_def)
      next
        case (Some user)
        from True have "leave_tunnel p = close_tunnel" by (auto simp: leave_tunnel_def)
        with Some True Pair Inr show ?thesis
          by (cases "perform env (OpenTunnel user (nimbus_host p) 6627 (nimbus_port p)) w1")
             (auto simp: submit_topology_def open_tunnel_def deploy_host_def deploy_port_def
                leave_tunnel_def split: sum.splits)
      qed
    qed
  qed
qed

lemma environ_extended: "extended Q w w' \<Longrightarrow> environ w' = environ w"
  by (auto simp: extended_def)

lemma environ_build_phase: "environ (snd (build_phase env p w)) = environ w"
  using extended_build_phase [of w env p] by (rule environ_extended)

lemma open_tunnel_world:
  "\<exists>evs. snd (open_tunnel env p w) = w\<lparr>trace := trace w @ evs\<rparr>"
proof -
  have "extended (\<lambda>c. True) w (snd (open_tunnel env p w))"
    unfolding open_tunnel_def
    by (auto intro!: extended_perform extended_succeed extended_raise split: option.splits)
  then show ?thesis by (auto simp: extended_def)
qed

lemma environ_open_tunnel: "environ (snd (open_tunnel env p w)) = environ w"
  using open_tunnel_world [of env p w] by auto

lemma environ_kill_phase:
  assumes "u_kill_existing_topology lib env n force wait host port w = Some y"
  shows "environ (snd y) = environ w"
proof (cases force)
  case True
  with assms kill_phase_forced [of lib env n wait host port w y] show ?thesis by auto
next
  case False
  with assms show ?thesis by (auto simp: u_kill_existing_topology_def)
qed

lemma environ_leave_tunnel: "environ (snd (leave_tunnel p m)) = environ (snd m)"
  and fst_leave_tunnel: "fst (leave_tunnel p m) = fst m"
  by (simp_all add: leave_tunnel_def close_tunnel_def)

lemma environ_submit_post:
  "environ (snd (and_then
       (u_submit_topology env n tfile jar ec workers ackers options debug host port w)
       (\<lambda>_ w. u_post_submit_hooks env um n' en w)))
     = (environ w)(''JVM_OPTS'' \<mapsto> jvm_opts jar)"
proof -
  let ?s = "u_submit_topology env n tfile jar ec workers ackers options debug host port w"
  have s: "environ (snd ?s) = (environ w)(''JVM_OPTS'' \<mapsto> jvm_opts jar)"
    using submitter_world [of env n tfile jar ec workers ackers options debug host port w] by auto
  show ?thesis
  proof (cases ?s)
    case (Pair r ws)
    show ?thesis
    proof (cases r)
      case (Inl e)
      with Pair s show ?thesis by (simp add: and_then_def)
    next
      case (Inr a)
      have "environ (snd (u_post_submit_hooks env um n' en ws)) = environ ws"
        using extended_post_hooks [of ws env um n' en] by (rule environ_extended)
      with Pair Inr s show ?thesis by (simp add: and_then_def)
    qed
  qed
qed

text \<open>Where the run of the orchestrator leaves the environment, case by case.\<close>

lemma orchestrator_environ:
  assumes "submit_topology lib env p workers ackers options force debug wait w = Some y"
  shows "if reaches_submitter lib env p force wait w
         then \<exists>built. fst (build_phase env p w) = Inr built
                \<and> environ (snd y) = (environ w)(''JVM_OPTS'' \<mapsto> jvm_opts built)
         else environ (snd y) = environ w \<and> (\<exists>e. fst y = Inl e)"
proof (cases "build_phase env p w")
  case (Pair r w1)
  then have e1: "environ w1 = environ w" using environ_build_phase [of env p w] by simp
  show ?thesis
  proof (cases r)
    case (Inl e)
    with Pair assms e1 show ?thesis
      by (auto simp: submit_topology_phases reaches_submitter_def)
  next
    case (Inr jar)
    show ?thesis
    proof (cases "open_tunnel env p w1")
      case t: (Pair rt w2)
      then have e2: "environ w2 = environ w" using environ_open_tunnel [of env p w1] e1 by simp
      show ?thesis
      proof (cases rt)
        case (Inl e)
        with t Pair Inr assms e2 show ?thesis
          by (auto simp: submit_topology_phases reaches_submitter_def)
      next
        case u: (Inr u)
        let ?k = "u_kill_existing_topology lib env (resolved_name p) force wait
                    (deploy_host p) (deploy_port p) w2"
        from u t Pair Inr assms obtain z where
          z: "kill_submit_post lib env p jar workers ackers options force debug wait
                 (deploy_host p) (deploy_port p) w2 = Some z" and yz: "y = leave_tunnel p z"
          by (auto simp: submit_topology_phases)
        then obtain rk w3 where k: "?k = Some (rk, w3)"
          by (cases ?k) (auto simp: kill_submit_post_def)
        from environ_kill_phase [OF k] e2 have e3: "environ w3 = environ w" by simp
        show ?thesis
        proof (cases rk)
          case (Inl e)
          with k z have "z = (Inl e, w3)" by (simp add: kill_submit_post_def)
          with yz e3 have "environ (snd y) = environ w \<and> (\<exists>e. fst y = Inl e)"
            by (simp add: environ_leave_tunnel fst_leave_tunnel)
          moreover from Inl k u t Pair Inr have "\<not> reaches_submitter lib env p force wait w"
            by (simp add: reaches_submitter_def)
          ultimately show ?thesis by simp
        next
          case v: (Inr v)
          with k z have "z = and_then
              (u_submit_topology env (resolved_name p) (resolved_file p) jar (resolved_env_config p)
                 workers ackers options debug (deploy_host p) (deploy_port p) w3)
              (\<lambda>_ w. u_post_submit_hooks env (user_mods p) (resolved_name p) (resolved_env_name p) w)"
            by (simp add: kill_submit_post_def)
          with yz e3 have "environ (snd y) = (environ w)(''JVM_OPTS'' \<mapsto> jvm_opts jar)"
            by (simp add: environ_leave_tunnel environ_submit_post)
          moreover from v k u t Pair Inr have "reaches_submitter lib env p force wait w"
            by (simp add: reaches_submitter_def)
          moreover from Pair Inr have "fst (build_phase env p w) = Inr jar" by simp
          ultimately show ?thesis by simp
        qed
      qed
    qed
  qed
qed



lemma demo_tunnel: "open_tunnel env demo_project w = (Inr (), w)"
  by (simp add: open_tunnel_def demo_project_def succeed_def)

lemma demo_reaches: "reaches_submitter lib (cluster k out) demo_project False wait fresh"
  by (simp add: reaches_submitter_def demo_build demo_tunnel u_kill_existing_topology_def)

lemma failing_run:
  "submit_topology lib failing demo_project 2 1 None False False None fresh
     = Some (Inl (unable_to_run ''lein clean'' \<lparr>ok = False, stdout = [], stderr = ''error''\<rparr>),
             fresh\<lparr>trace := [PrepareTopology, CallHook Invoke PreSubmit ''wc'' ''prod'',
                              Run ''lein clean'']\<rparr>)"
  and failing_not_reached: "\<not> reaches_submitter lib failing demo_project False None fresh"
proof -
  have b: "build_phase failing demo_project fresh
      = (Inl (unable_to_run ''lein clean'' \<lparr>ok = False, stdout = [], stderr = ''error''\<rparr>),
         fresh\<lparr>trace := [PrepareTopology, CallHook Invoke PreSubmit ''wc'' ''prod'', Run ''lein clean'']\<rparr>)"
    by (simp add: build_phase_def demo_project_def bare_config_def dict_get_default_def perform_eq
        failing_def u_pre_submit_hooks_def get_user_tasks_def callable_attr_def jar_for_deploy_def
        external_def and_then_def succeed_def raise_def fresh_def)
  then show "submit_topology lib failing demo_project 2 1 None False False None fresh
     = Some (Inl (unable_to_run ''lein clean'' \<lparr>ok = False, stdout = [], stderr = ''error''\<rparr>),
             fresh\<lparr>trace := [PrepareTopology, CallHook Invoke PreSubmit ''wc'' ''prod'',
                              Run ''lein clean'']\<rparr>)"
    by (simp add: submit_topology_def)
  from b show "\<not> reaches_submitter lib failing demo_project False None fresh"
    by (simp add: reaches_submitter_def)
qed











text \<open>
  Claim C9. However the submitter ends, it leaves \<open>JVM_OPTS\<close> set to the text built
  from the path of the jar. A run of the orchestrator that returns leaves it so exactly
  when it reached the submitter, for the jar that was built and whatever the submitter
  and the steps after it did; a run that stopped before the submitter ends with an error
  and leaves the environment as it was. Nothing in the module removes or restores the
  variable, and the collaborators are taken not to touch the environment of this process.
\<close>

theorem jvm_opts_left_set:
  "environ (snd (u_submit_topology env n tfile jar ec wk ak opts dbg host port w0))
     = (environ w0)(''JVM_OPTS'' \<mapsto> ''-Dstorm.jar='' @ jar @ '' -Dstorm.options= -Dstorm.conf.file='')
   \<and> (submit_topology lib env p workers ackers options force debug wait w = Some y \<longrightarrow>
        (if reaches_submitter lib env p force wait w
         then \<exists>built. fst (build_phase env p w) = Inr built
                \<and> environ (snd y) = (environ w)(''JVM_OPTS'' \<mapsto>
                     ''-Dstorm.jar='' @ built @ '' -Dstorm.options= -Dstorm.conf.file='')
         else environ (snd y) = environ w \<and> (\<exists>e. fst y = Inl e)))"
proof (intro conjI impI)
  show "environ (snd (u_submit_topology env n tfile jar ec wk ak opts dbg host port w0))
     = (environ w0)(''JVM_OPTS'' \<mapsto> ''-Dstorm.jar='' @ jar @ '' -Dstorm.options= -Dstorm.conf.file='')"
    using submitter_world [of env n tfile jar ec wk ak opts dbg host port w0]
    by (auto simp: jvm_opts_text)
next
  assume "submit_topology lib env p workers ackers options force debug wait w = Some y"
  then show "if reaches_submitter lib env p force wait w
         then \<exists>built. fst (build_phase env p w) = Inr built
                \<and> environ (snd y) = (environ w)(''JVM_OPTS'' \<mapsto>
                     ''-Dstorm.jar='' @ built @ '' -Dstorm.options= -Dstorm.conf.file='')
         else environ (snd y) = environ w \<and> (\<exists>e. fst y = Inl e)"
    by (rule orchestrator_environ [unfolded jvm_opts_text])
qed

theorem jvm_opts_left_set_witness:
  "environ (snd (the (submit_topology no_other (cluster 0 []) demo_project 2 1 None False False None fresh)))
     = [''JVM_OPTS'' \<mapsto> ''-Dstorm.jar=/proj/target/wc-0.0.1-standalone.jar -Dstorm.options= -Dstorm.conf.file='']
   \<and> environ (snd (the (submit_topology no_other failing demo_project 2 1 None False False None fresh)))
     = Map.empty"
proof -
  let ?y = "(Inr (), \<lparr>trace = demo_start @ [demo_submit, CallHook Invoke PostSubmit ''wc'' ''prod''],
                      environ = [''JVM_OPTS'' \<mapsto> jvm_opts demo_jar]\<rparr>) :: unit outcome"
  let ?z = "(Inl (unable_to_run ''lein clean'' \<lparr>ok = False, stdout = [], stderr = ''error''\<rparr>),
             fresh\<lparr>trace := [PrepareTopology, CallHook Invoke PreSubmit ''wc'' ''prod'',
                              Run ''lein clean'']\<rparr>) :: unit outcome"
  have run: "submit_topology no_other (cluster 0 []) demo_project 2 1 None False False None fresh = Some ?y"
    by (rule demo_run_unforced)
  have fresh_env: "environ fresh = Map.empty" by (simp add: fresh_def)
  note t1 = jvm_opts_left_set [where lib = no_other and env = "cluster 0 []" and p = demo_project
      and workers = 2 and ackers = 1 and options = None and force = False and debug = False
      and wait = None and w = fresh and y = ?y, THEN conjunct2, rule_format, OF run]
  from t1 demo_reaches [of no_other 0 "[]" None]
  have "\<exists>built. fst (build_phase (cluster 0 []) demo_project fresh) = Inr built
         \<and> environ (snd ?y) = (environ fresh)(''JVM_OPTS'' \<mapsto>
                    ''-Dstorm.jar='' @ built @ '' -Dstorm.options= -Dstorm.conf.file='')"
    by (simp only: if_True)
  then obtain built where "fst (build_phase (cluster 0 []) demo_project fresh) = Inr built"
    and e: "environ (snd ?y) = (environ fresh)(''JVM_OPTS'' \<mapsto>
                    ''-Dstorm.jar='' @ built @ '' -Dstorm.options= -Dstorm.conf.file='')"
    by blast
  then have "built = demo_jar" by (simp add: demo_build)
  with e fresh_env have 1: "environ (snd ?y)
      = [''JVM_OPTS'' \<mapsto> ''-Dstorm.jar=/proj/target/wc-0.0.1-standalone.jar -Dstorm.options= -Dstorm.conf.file='']"
    by (simp add: demo_jar_def)
  note t2 = jvm_opts_left_set [where lib = no_other and env = failing and p = demo_project
      and workers = 2 and ackers = 1 and options = None and force = False and debug = False
      and wait = None and w = fresh and y = ?z, THEN conjunct2, rule_format,
      OF failing_run [of no_other]]
  from t2 failing_not_reached [of no_other]
  have "environ (snd ?z) = environ fresh \<and> (\<exists>e. fst ?z = Inl e)"
    by (simp only: if_False)
  with fresh_env have 2: "environ (snd ?z) = Map.empty" by simp
  from 1 2 show ?thesis
    by (simp only: run failing_run [of no_other] option.sel)
qed

end
